theory Spec2Isabelle
  imports Complex_Main
begin

section \<open>Numbers and text\<close>

text \<open>
  The geodesy and projection functions of \<^verbatim>\<open>script.js\<close> (the same code is repeated in
  \<^verbatim>\<open>js/geodesia.js\<close> and \<^verbatim>\<open>js/projections.js\<close>) work on JavaScript numbers. Except
  for \<open>calculateAzimuth\<close> and \<open>calculateGeodesicArea\<close>, they are embedded here over
  \<^typ>\<open>real\<close>: every arithmetic operation is exact, \<open>Math.PI\<close> is \<^term>\<open>pi\<close>, and
  \<open>Math.sin\<close>, \<open>Math.cos\<close>, \<open>Math.tan\<close>, \<open>Math.sqrt\<close>, \<open>Math.log\<close> are the real functions;
  rounding of IEEE doubles, \<open>NaN\<close>, the infinities and the sign of zero are outside that
  embedding. \<open>calculateAzimuth\<close> and \<open>calculateGeodesicArea\<close> take the arithmetic as a
  parameter (section Double arithmetic), because what they return at the edge of a range
  or after a reordering of a sum depends on the rounding. Where the real function is
  not defined HOL still returns a value (\<open>tan\<close> at an odd multiple of \<open>pi / 2\<close> is \<open>0\<close>,
  \<open>x / 0 = 0\<close>); the source's own guards against division by zero are kept as they are
  written.
\<close>

subsection \<open>The WGS84 constants\<close>

definition WGS84_a :: real where
  "WGS84_a = 6378137"

definition WGS84_b :: real where
  "WGS84_b = 6356752.314245"

definition WGS84_f :: real where
  "WGS84_f = 1 / 298.257223563"

definition WGS84_e :: real where
  "WGS84_e = 0.0818191908426"

definition WGS84_e2 :: real where
  "WGS84_e2 = 0.00669437999014"

definition WGS84_ep2 :: real where
  "WGS84_ep2 = 0.00673949674228"

subsection \<open>Angle conversion\<close>

definition toRadians :: "real \<Rightarrow> real" where
  "toRadians deg = deg * pi / 180"

definition toDegrees :: "real \<Rightarrow> real" where
  "toDegrees rad = rad * 180 / pi"

subsection \<open>\<open>Math.atan2\<close>\<close>

text \<open>
  \<open>Math.atan2(y, x)\<close> is the angle of the point \<open>(x, y)\<close>, in \<open>(-pi, pi]\<close>; at the origin
  it is \<open>0\<close>.
\<close>

definition atan2 :: "real \<Rightarrow> real \<Rightarrow> real" where
  "atan2 y x =
     (if 0 < x then arctan (y / x)
      else if x < 0 then (if 0 \<le> y then arctan (y / x) + pi else arctan (y / x) - pi)
      else if 0 < y then pi / 2
      else if y < 0 then - (pi / 2)
      else 0)"

subsection \<open>\<open>Number.prototype.toFixed(2)\<close>\<close>

text \<open>
  \<open>toFixed\<close> returns text. For a magnitude below \<open>10^21\<close> it is the decimal expansion of
  the integer \<open>n\<close> nearest to \<open>100 * |x|\<close> (the larger one on a tie) with the point before
  the last two digits, after a minus sign when \<open>x < 0\<close>. From \<open>10^21\<close> on the method
  hands the number to \<open>Number::toString\<close>; that text is not modelled, the number is kept.
\<close>

datatype num_text = Decimal string | ToString real

definition digit :: "nat \<Rightarrow> char" where
  "digit d = ''0123456789'' ! (d mod 10)"

function decimal_digits :: "nat \<Rightarrow> string" where
  "decimal_digits n =
     (if n < 10 then [digit n] else decimal_digits (n div 10) @ [digit (n mod 10)])"
  by pat_completeness auto
termination
  by (relation "measure (\<lambda>n. n)") auto

declare decimal_digits.simps [simp del]

definition toFixed2 :: "real \<Rightarrow> num_text" where
  "toFixed2 x =
     (if 10 ^ 21 \<le> \<bar>x\<bar> then ToString x
      else
        let n = nat \<lfloor>\<bar>x\<bar> * 100 + 1 / 2\<rfloor>
        in Decimal ((if x < 0 then ''-'' else '''')
             @ decimal_digits (n div 100) @ ''.'' @ [digit (n div 10), digit n]))"

section \<open>Double arithmetic\<close>

text \<open>
  \<open>calculateAzimuth\<close> and \<open>calculateGeodesicArea\<close> are embedded over an arithmetic \<open>ar\<close>,
  so that the same definition can be read in exact reals and in the doubles the code
  runs on. \<open>rnd ar\<close> is applied to the result of every operation and \<open>PI ar\<close> is
  \<open>Math.PI\<close>.

  \<open>round64\<close> rounds a real to the nearest number with a 53-bit significand, ties to the
  even significand, as IEEE 754 binary64 arithmetic does. The exponent is not bounded:
  overflow to \<open>Infinity\<close>, gradual underflow, \<open>NaN\<close> and the sign of zero are not modelled.
  \<open>Math.sin\<close>, \<open>Math.cos\<close> and \<open>Math.atan2\<close>, which ECMAScript leaves to the implementation
  to approximate, are taken correctly rounded.
\<close>

definition round_even :: "real \<Rightarrow> int" where
  "round_even y =
     (let f = \<lfloor>y\<rfloor>;
          d = y - of_int f
      in if d < 1 / 2 then f else if 1 / 2 < d then f + 1 else if even f then f else f + 1)"

definition round64 :: "real \<Rightarrow> real" where
  "round64 x =
     (if x = 0 then 0
      else
        let u = 2 powr of_int (\<lfloor>log 2 \<bar>x\<bar>\<rfloor> - 52)
        in of_int (round_even (x / u)) * u)"

record arith =
  rnd :: "real \<Rightarrow> real"
  PI :: real

text \<open>Exact real arithmetic: nothing is rounded and \<open>Math.PI\<close> is \<open>pi\<close>.\<close>

definition exact :: arith where
  "exact = \<lparr>rnd = (\<lambda>x. x), PI = pi\<rparr>"

text \<open>
  Doubles: every result is rounded by \<open>round64\<close>, and \<open>Math.PI\<close> is the double
  \<open>3.141592653589793\<close>, that is \<open>884279719003555 / 2^48\<close>.
\<close>

definition binary64 :: arith where
  "binary64 = \<lparr>rnd = round64, PI = 884279719003555 / 2 ^ 48\<rparr>"

text \<open>\<open>toRadians\<close> and \<open>toDegrees\<close> of the source in the arithmetic \<open>ar\<close>.\<close>

definition toRadians_in :: "arith \<Rightarrow> real \<Rightarrow> real" where
  "toRadians_in ar deg = rnd ar (rnd ar (deg * PI ar) / 180)"

definition toDegrees_in :: "arith \<Rightarrow> real \<Rightarrow> real" where
  "toDegrees_in ar rad = rnd ar (rnd ar (rad * 180) / PI ar)"

definition Math_sin :: "arith \<Rightarrow> real \<Rightarrow> real" where
  "Math_sin ar x = rnd ar (sin x)"

definition Math_cos :: "arith \<Rightarrow> real \<Rightarrow> real" where
  "Math_cos ar x = rnd ar (cos x)"

definition Math_atan2 :: "arith \<Rightarrow> real \<Rightarrow> real \<Rightarrow> real" where
  "Math_atan2 ar y x = rnd ar (atan2 y x)"

section \<open>Azimuth and rumbo\<close>

definition calculateAzimuth :: "arith \<Rightarrow> real \<Rightarrow> real \<Rightarrow> real \<Rightarrow> real \<Rightarrow> real" where
  "calculateAzimuth ar lat1 lon1 lat2 lon2 =
     (let \<phi>1 = toRadians_in ar lat1;
          \<phi>2 = toRadians_in ar lat2;
          dlam = toRadians_in ar (rnd ar (lon2 - lon1));
          y = rnd ar (Math_sin ar dlam * Math_cos ar \<phi>2);
          x = rnd ar (rnd ar (Math_cos ar \<phi>1 * Math_sin ar \<phi>2)
                - rnd ar (rnd ar (Math_sin ar \<phi>1 * Math_cos ar \<phi>2) * Math_cos ar dlam));
          azimuth = toDegrees_in ar (Math_atan2 ar y x)
      in if azimuth < 0 then rnd ar (azimuth + 360) else azimuth)"

record rumbo =
  quadrant :: string
  angle :: num_text

definition azimuthToRumbo :: "real \<Rightarrow> rumbo" where
  "azimuthToRumbo azimuth =
     (if 0 \<le> azimuth \<and> azimuth < 90 then
        \<lparr>quadrant = ''NE'', angle = toFixed2 azimuth\<rparr>
      else if 90 \<le> azimuth \<and> azimuth < 180 then
        \<lparr>quadrant = ''SE'', angle = toFixed2 (180 - azimuth)\<rparr>
      else if 180 \<le> azimuth \<and> azimuth < 270 then
        \<lparr>quadrant = ''SW'', angle = toFixed2 (azimuth - 180)\<rparr>
      else \<lparr>quadrant = ''NW'', angle = toFixed2 (360 - azimuth)\<rparr>)"

section \<open>UTM forward transform\<close>

record utm =
  zone :: int
  hemisphere :: string
  easting :: num_text
  northing :: num_text

text \<open>
  The first part of \<open>latLonToUTM\<close>: the zone, and the easting and northing in metres as the
  series give them, before the false northing is added and before \<open>toFixed\<close>.
\<close>

definition utm_series :: "real \<Rightarrow> real \<Rightarrow> int \<times> real \<times> real" where
  "utm_series lat lon =
     (let zone = \<lfloor>(lon + 180) / 6\<rfloor> + 1;
          lonOrigin = (real_of_int zone - 1) * 6 - 180 + 3;
          latRad = toRadians lat;
          lonRad = toRadians lon;
          lonOriginRad = toRadians lonOrigin;
          N = WGS84_a / sqrt (1 - WGS84_e2 * sin latRad ^ 2);
          T = tan latRad ^ 2;
          C = WGS84_ep2 * cos latRad ^ 2;
          A = cos latRad * (lonRad - lonOriginRad);
          M = WGS84_a * (
              (1 - WGS84_e2 / 4 - 3 * WGS84_e2 ^ 2 / 64 - 5 * WGS84_e2 ^ 3 / 256) * latRad
              - (3 * WGS84_e2 / 8 + 3 * WGS84_e2 ^ 2 / 32 + 45 * WGS84_e2 ^ 3 / 1024)
                  * sin (2 * latRad)
              + (15 * WGS84_e2 ^ 2 / 256 + 45 * WGS84_e2 ^ 3 / 1024) * sin (4 * latRad)
              - (35 * WGS84_e2 ^ 3 / 3072) * sin (6 * latRad));
          k0 = 0.9996;
          easting = k0 * N * (A + (1 - T + C) * A ^ 3 / 6
                      + (5 - 18 * T + T ^ 2 + 72 * C - 58 * WGS84_ep2) * A ^ 5 / 120)
                    + 500000;
          northing = k0 * (M + N * tan latRad * (A ^ 2 / 2
                      + (5 - T + 9 * C + 4 * C ^ 2) * A ^ 4 / 24
                      + (61 - 58 * T + T ^ 2 + 600 * C - 330 * WGS84_ep2) * A ^ 6 / 720))
      in (zone, easting, northing))"

definition latLonToUTM :: "real \<Rightarrow> real \<Rightarrow> utm" where
  "latLonToUTM lat lon =
     (case utm_series lat lon of
        (zone0, easting0, northing0) \<Rightarrow>
          let northing1 = (if lat < 0 then northing0 + 10000000 else northing0);
              hemisphere1 = (if 0 \<le> lat then ''N'' else ''S'')
          in \<lparr>zone = zone0, hemisphere = hemisphere1,
               easting = toFixed2 easting0, northing = toFixed2 northing1\<rparr>)"

section \<open>Planar projections\<close>

datatype js_error = TypeError

text \<open>The point \<open>{x, y}\<close> that \<open>projectPoint\<close> returns, in percent.\<close>

record planar =
  px :: real
  py :: real

text \<open>
  Reading \<open>table[i]\<close>: an index outside the array gives \<open>undefined\<close>, and reading a
  component of \<open>undefined\<close> throws a \<open>TypeError\<close>; \<open>None\<close> stands for \<open>undefined\<close>.
\<close>

definition js_index :: "'a list \<Rightarrow> int \<Rightarrow> 'a option" where
  "js_index xs i = (if 0 \<le> i \<and> i < int (length xs) then Some (xs ! nat i) else None)"

text \<open>Each row of the table is \<open>[latitude, plen, pdfe]\<close>.\<close>

definition robinsonTable :: "(real \<times> real \<times> real) list" where
  "robinsonTable =
     [(0, 1.0000, 0.0000), (5, 0.9986, 0.0620), (10, 0.9954, 0.1240),
      (15, 0.9900, 0.1860), (20, 0.9822, 0.2480), (25, 0.9730, 0.3100),
      (30, 0.9600, 0.3720), (35, 0.9427, 0.4340), (40, 0.9216, 0.4958),
      (45, 0.8962, 0.5571), (50, 0.8679, 0.6176), (55, 0.8350, 0.6769),
      (60, 0.7986, 0.7346), (65, 0.7597, 0.7903), (70, 0.7186, 0.8435),
      (75, 0.6732, 0.8936), (80, 0.6213, 0.9394), (85, 0.5722, 0.9761),
      (90, 0.5322, 1.0000)]"

text \<open>The index of the lower row of the interpolation, after the clamp.\<close>

definition robinson_idx :: "real \<Rightarrow> int" where
  "robinson_idx lat =
     (let absLat = \<bar>lat\<bar>;
          idx = \<lfloor>absLat / 5\<rfloor>
      in if int (length robinsonTable) - 1 \<le> idx then int (length robinsonTable) - 2 else idx)"

definition robinson_xy :: "real \<Rightarrow> real \<Rightarrow> js_error + real \<times> real" where
  "robinson_xy lat lon =
     (let absLat = \<bar>lat\<bar>;
          idx = robinson_idx lat
      in case (js_index robinsonTable idx, js_index robinsonTable (idx + 1)) of
           (Some (lat0, plen0, pdfe0), Some (lat1, plen1, pdfe1)) \<Rightarrow>
             let t = (absLat - lat0) / 5;
                 plen = plen0 * (1 - t) + plen1 * t;
                 pdfe = pdfe0 * (1 - t) + pdfe1 * t;
                 x = 0.5 + (lon / 180) * plen * 0.45;
                 y = 0.5 - (if lat < 0 then - 1 else 1) * pdfe * 0.45
             in Inr (x, y)
         | _ \<Rightarrow> Inl TypeError)"

text \<open>The ten Newton steps of the Mollweide branch, \<open>i\<close> counting the steps left.\<close>

fun mollweide_theta :: "nat \<Rightarrow> real \<Rightarrow> real \<Rightarrow> real" where
  "mollweide_theta 0 latRad theta = theta"
| "mollweide_theta (Suc i) latRad theta =
     mollweide_theta i latRad
       (theta - (2 * theta + sin (2 * theta) - pi * sin latRad) / (2 + 2 * cos (2 * theta)))"

definition projectPoint :: "real \<Rightarrow> real \<Rightarrow> string \<Rightarrow> real \<Rightarrow> real \<Rightarrow> js_error + planar" where
  "projectPoint lat lon projection width height =
     (let latRad = toRadians lat;
          lonRad = toRadians lon;
          xy =
            (if projection = ''mercator'' then
               let x = (lon + 180) / 360;
                   maxLat = 85;
                   clampedLat = max (- maxLat) (min maxLat lat);
                   y = 0.5 - ln (tan (pi / 4 + toRadians clampedLat / 2)) / (2 * pi)
               in Inr (x, y)
             else if projection = ''mollweide'' then
               let theta = mollweide_theta 10 latRad latRad;
                   x = 0.5 + (lonRad / pi) * cos theta * 0.4;
                   y = 0.5 - sin theta * 0.45
               in Inr (x, y)
             else if projection = ''sinusoidal'' then
               let x = 0.5 + (lonRad * cos latRad) / pi * 0.45;
                   y = 0.5 - latRad / pi * 0.9
               in Inr (x, y)
             else if projection = ''robinson'' then robinson_xy lat lon
             else if projection = ''lambert'' then
               let x = (lon + 180) / 360;
                   y = 0.5 - sin latRad * 0.5
               in Inr (x, y)
             else
               let x = (lon + 180) / 360;
                   y = (90 - lat) / 180
               in Inr (x, y))
      in case xy of
           Inl err \<Rightarrow> Inl err
         | Inr (x, y) \<Rightarrow> Inr \<lparr>px = x * 100, py = y * 100\<rparr>)"

section \<open>Vincenty inverse distance\<close>

text \<open>The variables of the loop of \<open>vincentyDistance\<close> as they stand after a pass.\<close>

record vincenty_vars =
  lam :: real
  lam_prev :: real
  sin\<sigma> :: real
  cos\<sigma> :: real
  \<sigma> :: real
  sin\<alpha> :: real
  cos2\<alpha> :: real
  cos2\<sigma>m :: real

text \<open>
  One pass of the body of the \<open>do ... while\<close> loop, entered with \<open>lam\<close>. \<open>None\<close> is the
  \<open>return 0\<close> taken when \<open>sin\<sigma> === 0\<close>.
\<close>

definition vincenty_pass ::
  "real \<Rightarrow> real \<Rightarrow> real \<Rightarrow> real \<Rightarrow> real \<Rightarrow> real \<Rightarrow> vincenty_vars option" where
  "vincenty_pass sinU1 cosU1 sinU2 cosU2 L lam0 =
     (let sinlam = sin lam0;
          coslam = cos lam0;
          sin\<sigma>' = sqrt ((cosU2 * sinlam) ^ 2 + (cosU1 * sinU2 - sinU1 * cosU2 * coslam) ^ 2)
      in if sin\<sigma>' = 0 then None
         else
           let cos\<sigma>' = sinU1 * sinU2 + cosU1 * cosU2 * coslam;
               \<sigma>' = atan2 sin\<sigma>' cos\<sigma>';
               sin\<alpha>' = cosU1 * cosU2 * sinlam / sin\<sigma>';
               cos2\<alpha>' = 1 - sin\<alpha>' ^ 2;
               cos2\<sigma>m' = (if cos2\<alpha>' \<noteq> 0 then cos\<sigma>' - 2 * sinU1 * sinU2 / cos2\<alpha>' else 0);
               C = WGS84_f / 16 * cos2\<alpha>' * (4 + WGS84_f * (4 - 3 * cos2\<alpha>'));
               lam1 = L + (1 - C) * WGS84_f * sin\<alpha>'
                        * (\<sigma>' + C * sin\<sigma>' * (cos2\<sigma>m' + C * cos\<sigma>' * (- 1 + 2 * cos2\<sigma>m' ^ 2)))
           in Some \<lparr>lam = lam1, lam_prev = lam0, sin\<sigma> = sin\<sigma>', cos\<sigma> = cos\<sigma>', \<sigma> = \<sigma>',
                     sin\<alpha> = sin\<alpha>', cos2\<alpha> = cos2\<alpha>', cos2\<sigma>m = cos2\<sigma>m'\<rparr>)"

text \<open>
  The loop \<open>do { ... } while (Math.abs(lam - lam_prev) > 1e-12 && --iterLimit > 0)\<close>.
  \<open>iterLimit\<close> is decremented only when the first test holds. The result is how the loop
  was left (\<open>None\<close> for \<open>return 0\<close>, otherwise the variables after the last pass) and
  \<open>passes\<close>, the number of passes made; the source keeps no such counter.
\<close>

function vincenty_loop ::
  "real \<Rightarrow> real \<Rightarrow> real \<Rightarrow> real \<Rightarrow> real \<Rightarrow> real \<Rightarrow> int \<Rightarrow> nat \<Rightarrow> vincenty_vars option \<times> nat" where
  "vincenty_loop sinU1 cosU1 sinU2 cosU2 L lam0 iterLimit passes =
     (case vincenty_pass sinU1 cosU1 sinU2 cosU2 L lam0 of
        None \<Rightarrow> (None, passes + 1)
      | Some v \<Rightarrow>
          if \<bar>lam v - lam_prev v\<bar> > 1 / 10 ^ 12 \<and> iterLimit - 1 > 0
          then vincenty_loop sinU1 cosU1 sinU2 cosU2 L (lam v) (iterLimit - 1) (passes + 1)
          else (Some v, passes + 1))"
  by pat_completeness auto
termination
  by (relation "measure (\<lambda>(sinU1, cosU1, sinU2, cosU2, L, lam0, iterLimit, passes). nat iterLimit)")
    auto

declare vincenty_loop.simps [simp del]

text \<open>The part of \<open>vincentyDistance\<close> up to the end of the loop.\<close>

definition vincenty_iterate :: "real \<Rightarrow> real \<Rightarrow> real \<Rightarrow> real \<Rightarrow> vincenty_vars option \<times> nat" where
  "vincenty_iterate lat1 lon1 lat2 lon2 =
     (let \<phi>1 = toRadians lat1;
          \<phi>2 = toRadians lat2;
          L = toRadians (lon2 - lon1);
          tanU1 = (1 - WGS84_f) * tan \<phi>1;
          cosU1 = 1 / sqrt (1 + tanU1 * tanU1);
          sinU1 = tanU1 * cosU1;
          tanU2 = (1 - WGS84_f) * tan \<phi>2;
          cosU2 = 1 / sqrt (1 + tanU2 * tanU2);
          sinU2 = tanU2 * cosU2
      in vincenty_loop sinU1 cosU1 sinU2 cosU2 L L 100 0)"

text \<open>The part of \<open>vincentyDistance\<close> after the loop.\<close>

definition vincenty_final :: "vincenty_vars \<Rightarrow> real" where
  "vincenty_final v =
     (let u2 = cos2\<alpha> v * (WGS84_a ^ 2 - WGS84_b ^ 2) / (WGS84_b ^ 2);
          A = 1 + u2 / 16384 * (4096 + u2 * (- 768 + u2 * (320 - 175 * u2)));
          B = u2 / 1024 * (256 + u2 * (- 128 + u2 * (74 - 47 * u2)));
          \<Delta>\<sigma> = B * sin\<sigma> v * (cos2\<sigma>m v + B / 4 * (cos\<sigma> v * (- 1 + 2 * cos2\<sigma>m v ^ 2)
                 - B / 6 * cos2\<sigma>m v * (- 3 + 4 * sin\<sigma> v ^ 2) * (- 3 + 4 * cos2\<sigma>m v ^ 2)))
      in WGS84_b * A * (\<sigma> v - \<Delta>\<sigma>))"

definition vincentyDistance :: "real \<Rightarrow> real \<Rightarrow> real \<Rightarrow> real \<Rightarrow> real" where
  "vincentyDistance lat1 lon1 lat2 lon2 =
     (case fst (vincenty_iterate lat1 lon1 lat2 lon2) of
        None \<Rightarrow> 0
      | Some v \<Rightarrow> vincenty_final v)"

text \<open>
  The loop variables of the same computation with the two endpoints exchanged: the
  longitude differences and the sine of the azimuth change sign, the rest is unchanged.
\<close>

definition mirror_vars :: "vincenty_vars \<Rightarrow> vincenty_vars" where
  "mirror_vars v = v\<lparr>lam := - lam v, lam_prev := - lam_prev v, sin\<alpha> := - sin\<alpha> v\<rparr>"

section \<open>Polygon area\<close>

text \<open>A vertex \<open>{lat, lon}\<close> of the source, in decimal degrees.\<close>

record geopoint =
  pt_lat :: real
  pt_lon :: real

text \<open>The body of the \<open>for\<close> loop of \<open>calculateGeodesicArea\<close> at index \<open>i\<close>.\<close>

definition area_step :: "arith \<Rightarrow> geopoint list \<Rightarrow> nat \<Rightarrow> real \<Rightarrow> real" where
  "area_step ar pts i area =
     (let n = length pts;
          j = (i + 1) mod n;
          lat1 = toRadians_in ar (pt_lat (pts ! i));
          lat2 = toRadians_in ar (pt_lat (pts ! j));
          dLon = toRadians_in ar (rnd ar (pt_lon (pts ! j) - pt_lon (pts ! i)))
      in rnd ar (area
           + rnd ar (dLon * rnd ar (rnd ar (2 + Math_sin ar lat1) + Math_sin ar lat2))))"

definition calculateGeodesicArea :: "arith \<Rightarrow> geopoint list \<Rightarrow> real" where
  "calculateGeodesicArea ar pts =
     (if length pts < 3 then 0
      else
        let n = length pts;
            area = fold (area_step ar pts) [0..<n] 0
        in \<bar>rnd ar (rnd ar (rnd ar (area * WGS84_a) * WGS84_a) / 2)\<bar>)"

section \<open>Properties\<close>

subsection \<open>Rounding to double\<close>

lemma round_even_near:
  assumes "\<bar>y - of_int m\<bar> < 1 / 2"
  shows "round_even y = m"
proof -
  have lo: "of_int m - 1 / 2 < y" and hi: "y < of_int m + 1 / 2"
    using assms by linarith+
  show ?thesis
  proof (cases "of_int m \<le> y")
    case True
    then have f: "\<lfloor>y\<rfloor> = m"
      using hi by (intro floor_unique) simp_all
    show ?thesis
      using hi by (simp add: round_even_def f Let_def)
  next
    case False
    then have f: "\<lfloor>y\<rfloor> = m - 1"
      using lo by (intro floor_unique) simp_all
    show ?thesis
      using lo by (simp add: round_even_def f Let_def)
  qed
qed

lemma round_even_of_int [simp]: "round_even (of_int m) = m"
  by (rule round_even_near) simp

lemma round_even_cases: "round_even y = \<lfloor>y\<rfloor> \<or> round_even y = \<lfloor>y\<rfloor> + 1"
  by (simp add: round_even_def Let_def)

lemma round_even_mono:
  assumes "x \<le> y"
  shows "round_even x \<le> round_even y"
proof (cases "\<lfloor>x\<rfloor> = \<lfloor>y\<rfloor>")
  case True
  have "y - of_int \<lfloor>y\<rfloor> < 1 / 2 \<Longrightarrow> x - of_int \<lfloor>y\<rfloor> < 1 / 2"
    using assms by linarith
  moreover have "x - of_int \<lfloor>y\<rfloor> \<le> 1 / 2 \<or> 1 / 2 < y - of_int \<lfloor>y\<rfloor>"
    using assms by linarith
  ultimately show ?thesis
    unfolding round_even_def Let_def True by auto
next
  case False
  then have "\<lfloor>x\<rfloor> + 1 \<le> \<lfloor>y\<rfloor>"
    using floor_mono [OF assms] by linarith
  then show ?thesis
    using round_even_cases [of x] round_even_cases [of y] by linarith
qed

lemma round_even_minus: "round_even (- y) = - round_even y"
proof (cases "y = of_int \<lfloor>y\<rfloor>")
  case True
  have "round_even (of_int (- \<lfloor>y\<rfloor>)) = - round_even (of_int \<lfloor>y\<rfloor>)"
    by (simp only: round_even_of_int)
  then have "round_even (- of_int \<lfloor>y\<rfloor>) = - round_even (of_int \<lfloor>y\<rfloor>)"
    by (simp only: of_int_minus)
  then show ?thesis
    by (simp only: True [symmetric])
next
  case False
  have "of_int (- \<lfloor>y\<rfloor> - 1) \<le> - y" "- y < of_int (- \<lfloor>y\<rfloor> - 1) + 1"
    using False of_int_floor_le [of y] floor_correct [of y] by (simp_all, linarith+)
  then have fl: "\<lfloor>- y\<rfloor> = - \<lfloor>y\<rfloor> - 1"
    by (intro floor_unique)
  have d: "- y - of_int (- \<lfloor>y\<rfloor> - 1) = 1 - (y - of_int \<lfloor>y\<rfloor>)"
    by simp
  have ev: "even (- \<lfloor>y\<rfloor> - 1) \<longleftrightarrow> odd \<lfloor>y\<rfloor>"
    by simp
  show ?thesis
    unfolding round_even_def Let_def fl d ev by auto
qed


lemma floor_log2_eq:
  assumes "2 powr of_int e \<le> \<bar>x\<bar>" and "\<bar>x\<bar> < 2 powr of_int (e + 1)"
  shows "\<lfloor>log 2 \<bar>x\<bar>\<rfloor> = e"
proof -
  have "0 < \<bar>x\<bar>"
    using assms(1) powr_gt_zero [of 2 "of_int e"] by linarith
  then show ?thesis
    using assms by (simp add: floor_log_eq_powr_iff add.commute)
qed

lemma floor_log2_bounds:
  assumes "x \<noteq> 0"
  shows "2 powr of_int \<lfloor>log 2 \<bar>x\<bar>\<rfloor> \<le> \<bar>x\<bar>" and "\<bar>x\<bar> < 2 powr of_int (\<lfloor>log 2 \<bar>x\<bar>\<rfloor> + 1)"
proof -
  have "0 < \<bar>x\<bar>"
    using assms by simp
  then have "2 powr of_int \<lfloor>log 2 \<bar>x\<bar>\<rfloor> \<le> \<bar>x\<bar> \<and> \<bar>x\<bar> < 2 powr of_int (\<lfloor>log 2 \<bar>x\<bar>\<rfloor> + 1)"
    using floor_log_eq_powr_iff [of "\<bar>x\<bar>" 2 "\<lfloor>log 2 \<bar>x\<bar>\<rfloor>"] by simp
  then show "2 powr of_int \<lfloor>log 2 \<bar>x\<bar>\<rfloor> \<le> \<bar>x\<bar>" and "\<bar>x\<bar> < 2 powr of_int (\<lfloor>log 2 \<bar>x\<bar>\<rfloor> + 1)"
    by simp_all
qed

lemma round64_eqI:
  assumes lo: "2 powr of_int e \<le> \<bar>x\<bar>" and hi: "\<bar>x\<bar> < 2 powr of_int (e + 1)"
    and near: "\<bar>x / 2 powr of_int (e - 52) - of_int m\<bar> < 1 / 2"
  shows "round64 x = of_int m * 2 powr of_int (e - 52)"
proof -
  have nz: "x \<noteq> 0"
    using lo powr_gt_zero [of 2 "of_int e"] by auto
  have e: "\<lfloor>log 2 \<bar>x\<bar>\<rfloor> = e"
    by (rule floor_log2_eq [OF lo hi])
  have "round_even (x / 2 powr of_int (e - 52)) = m"
    by (rule round_even_near [OF near])
  then show ?thesis
    by (simp add: round64_def nz e Let_def)
qed

lemma round64_0 [simp]: "round64 0 = 0"
  by (simp add: round64_def)

lemma round64_minus: "round64 (- x) = - round64 x"
  by (simp add: round64_def Let_def round_even_minus)

lemma pow2_split: "(2::real) powr of_int (e + 1) = 2 powr of_int (e - 52) * 2 ^ 53"
proof -
  have "real_of_int (e + 1) = of_int (e - 52) + 53"
    by simp
  then have "(2::real) powr of_int (e + 1) = 2 powr (of_int (e - 52) + 53)"
    by (simp only:)
  also have "\<dots> = 2 powr of_int (e - 52) * 2 powr 53"
    by (rule powr_add)
  finally show ?thesis
    by simp
qed

lemma pow2_split': "(2::real) powr of_int e = 2 powr of_int (e - 52) * 2 ^ 52"
proof -
  have "real_of_int e = of_int (e - 52) + 52"
    by simp
  then have "(2::real) powr of_int e = 2 powr (of_int (e - 52) + 52)"
    by (simp only:)
  also have "\<dots> = 2 powr of_int (e - 52) * 2 powr 52"
    by (rule powr_add)
  finally show ?thesis
    by simp
qed


lemma round64_pos_form:
  assumes "0 < x"
  obtains e m where "round64 x = of_int m * 2 powr of_int (e - 52)"
    and "2 ^ 52 \<le> m" and "m \<le> 2 ^ 53"
    and "2 powr of_int e \<le> x" and "x < 2 powr of_int (e + 1)"
    and "m = round_even (x / 2 powr of_int (e - 52))"
proof -
  define e where "e = \<lfloor>log 2 \<bar>x\<bar>\<rfloor>"
  define u :: real where "u = 2 powr of_int (e - 52)"
  define m where "m = round_even (x / u)"
  have u: "0 < u"
    by (simp add: u_def)
  have nz: "x \<noteq> 0"
    using assms by simp
  have lo: "2 powr of_int e \<le> x" and hi: "x < 2 powr of_int (e + 1)"
    using floor_log2_bounds [OF nz] assms by (simp_all add: e_def)
  have "u * 2 ^ 52 \<le> x"
    using lo by (simp only: pow2_split' [of e] u_def)
  then have q1: "of_int (2 ^ 52) \<le> x / u"
    using u by (simp add: pos_le_divide_eq mult.commute)
  have "x < u * 2 ^ 53"
    using hi by (simp only: pow2_split [of e] u_def)
  then have q2: "x / u \<le> of_int (2 ^ 53)"
    using u by (simp add: pos_divide_le_eq mult.commute)
  have m1: "2 ^ 52 \<le> m"
    using round_even_mono [OF q1] by (simp only: round_even_of_int m_def)
  have m2: "m \<le> 2 ^ 53"
    using round_even_mono [OF q2] by (simp only: round_even_of_int m_def)
  have r: "round64 x = of_int m * u"
    using nz by (simp add: round64_def Let_def m_def u_def e_def)
  show ?thesis
    using that [of m e] r m1 m2 lo hi by (simp add: u_def m_def)
qed

lemma round64_pos:
  assumes "0 < x"
  shows "0 < round64 x"
proof -
  obtain e m where r: "round64 x = of_int m * 2 powr of_int (e - 52)" and m: "2 ^ 52 \<le> m"
    using round64_pos_form [OF assms] by blast
  have "0 < real_of_int m"
    using m by simp
  then show ?thesis
    unfolding r by (simp add: zero_less_mult_iff)
qed

lemma round64_neg:
  assumes "x < 0"
  shows "round64 x < 0"
  using round64_pos [of "- x"] assms by (simp add: round64_minus)

lemma round64_mono_pos:
  assumes "0 < x" and "x \<le> y"
  shows "round64 x \<le> round64 y"
proof -
  obtain e m where r: "round64 x = of_int m * 2 powr of_int (e - 52)"
    and m2: "m \<le> 2 ^ 53"
    and lo: "2 powr of_int e \<le> x" and hi: "x < 2 powr of_int (e + 1)"
    and md: "m = round_even (x / 2 powr of_int (e - 52))"
    using round64_pos_form [OF assms(1)] by blast
  have ypos: "0 < y"
    using assms by simp
  obtain e' m' where r': "round64 y = of_int m' * 2 powr of_int (e' - 52)"
    and m1': "2 ^ 52 \<le> m'"
    and lo': "2 powr of_int e' \<le> y" and hi': "y < 2 powr of_int (e' + 1)"
    and md': "m' = round_even (y / 2 powr of_int (e' - 52))"
    using round64_pos_form [OF ypos] by blast
  have "2 powr of_int e < (2::real) powr of_int (e' + 1)"
    using lo hi' assms(2) by linarith
  then have ee: "e \<le> e'"
    by simp
  show ?thesis
  proof (cases "e = e'")
    case True
    have "x / 2 powr of_int (e - 52) \<le> y / 2 powr of_int (e - 52)"
      using assms(2) by (simp add: divide_right_mono)
    then have "m \<le> m'"
      unfolding md md' True [symmetric] by (rule round_even_mono)
    then show ?thesis
      unfolding r r' True [symmetric] by (simp add: mult_right_mono)
  next
    case False
    then have lt: "e + 1 \<le> e'"
      using ee by simp
    have "round64 x \<le> 2 ^ 53 * 2 powr of_int (e - 52)"
      unfolding r using m2 by (simp add: mult_right_mono)
    also have "\<dots> = 2 powr of_int (e + 1)"
      by (subst pow2_split) (rule mult.commute)
    also have "\<dots> \<le> 2 powr of_int e'"
      using lt by simp
    also have "\<dots> = 2 ^ 52 * 2 powr of_int (e' - 52)"
      by (subst pow2_split') (rule mult.commute)
    also have "\<dots> \<le> round64 y"
      unfolding r' using m1' by (simp add: mult_right_mono)
    finally show ?thesis .
  qed
qed

lemma round64_mono:
  assumes "x \<le> y"
  shows "round64 x \<le> round64 y"
proof -
  consider "0 < x" | "x \<le> 0" "0 < y" | "x < 0" "y = 0" | "x = 0" "y = 0" | "y < 0"
    using assms by linarith
  then show ?thesis
  proof cases
    case 1
    then show ?thesis
      using assms by (rule round64_mono_pos)
  next
    case 2
    have "round64 x \<le> 0"
      using 2(1) round64_neg [of x] by (cases "x = 0") auto
    then show ?thesis
      using round64_pos [OF 2(2)] by simp
  next
    case 3
    then show ?thesis
      using round64_neg [of x] by simp
  next
    case 4
    then show ?thesis
      by simp
  next
    case 5
    have "round64 (- y) \<le> round64 (- x)"
      using 5 assms by (intro round64_mono_pos) simp_all
    then show ?thesis
      by (simp add: round64_minus)
  qed
qed


lemma round64_exact_pos:
  assumes n: "0 < n" "n < 2 ^ 53"
  shows "round64 (of_int n * 2 powr of_int k) = of_int n * 2 powr of_int k"
proof -
  define x :: real where "x = of_int n * 2 powr of_int k"
  have xpos: "0 < x"
    using n by (simp add: x_def zero_less_mult_iff)
  define e where "e = \<lfloor>log 2 \<bar>x\<bar>\<rfloor>"
  have lo: "2 powr of_int e \<le> \<bar>x\<bar>" and hi: "\<bar>x\<bar> < 2 powr of_int (e + 1)"
    using floor_log2_bounds [of x] xpos by (simp_all add: e_def)
  have "x < 2 ^ 53 * 2 powr of_int k"
    unfolding x_def using n by (simp add: mult_strict_right_mono)
  also have "\<dots> = 2 powr of_int (k + 53)"
    by (simp add: powr_add mult.commute)
  finally have "x < 2 powr of_int (k + 53)" .
  then have "2 powr of_int e < (2::real) powr of_int (k + 53)"
    using lo xpos by linarith
  then have "real_of_int e < of_int (k + 53)"
    by (simp only: powr_less_cancel_iff [of 2] one_less_numeral_iff semiring_norm)
  then have j: "0 \<le> k - (e - 52)"
    by linarith
  define j where "j = nat (k - (e - 52))"
  have k: "real_of_int k = of_int (e - 52) + real j"
    using j by (simp add: j_def)
  have pk: "(2::real) powr of_int k = 2 powr of_int (e - 52) * 2 ^ j"
    unfolding k by (simp add: powr_add powr_realpow)
  have q: "x / 2 powr of_int (e - 52) = of_int (n * 2 ^ j)"
    unfolding x_def pk by simp
  have near: "\<bar>x / 2 powr of_int (e - 52) - of_int (n * 2 ^ j)\<bar> < 1 / 2"
    unfolding q by simp
  have "round64 x = of_int (n * 2 ^ j) * 2 powr of_int (e - 52)"
    by (rule round64_eqI [OF lo hi near])
  also have "\<dots> = x"
    unfolding x_def pk by simp
  finally show ?thesis
    by (simp add: x_def)
qed

lemma round64_exact:
  assumes "\<bar>n\<bar> < 2 ^ 53"
  shows "round64 (of_int n * 2 powr of_int k) = of_int n * 2 powr of_int k"
proof -
  consider "0 < n" | "n = 0" | "n < 0"
    by linarith
  then show ?thesis
  proof cases
    case 1
    then show ?thesis
      using assms by (intro round64_exact_pos) simp_all
  next
    case 2
    then show ?thesis
      by simp
  next
    case 3
    then have "round64 (of_int (- n) * 2 powr of_int k) = of_int (- n) * 2 powr of_int k"
      using assms by (intro round64_exact_pos) simp_all
    then show ?thesis
      using round64_minus [of "of_int n * 2 powr of_int k"] by simp
  qed
qed

lemma round64_of_int:
  assumes "\<bar>n\<bar> < 2 ^ 53"
  shows "round64 (of_int n) = of_int n"
  using round64_exact [OF assms, of 0] by simp

lemma round64_idem_pos:
  assumes "0 < x"
  shows "round64 (round64 x) = round64 x"
proof -
  obtain e m where r: "round64 x = of_int m * 2 powr of_int (e - 52)"
    and m1: "2 ^ 52 \<le> m" and m2: "m \<le> 2 ^ 53"
    using round64_pos_form [OF assms] by blast
  show ?thesis
  proof (cases "m = 2 ^ 53")
    case True
    have "round64 x = of_int 1 * 2 powr of_int (e + 1)"
      unfolding r True by (subst pow2_split) (simp add: mult.commute)
    then show ?thesis
      using round64_exact [of 1 "e + 1"] by simp
  next
    case False
    then have "\<bar>m\<bar> < 2 ^ 53"
      using m1 m2 by simp
    then show ?thesis
      unfolding r by (rule round64_exact)
  qed
qed

lemma round64_idem [simp]: "round64 (round64 x) = round64 x"
proof -
  consider "0 < x" | "x = 0" | "x < 0"
    by linarith
  then show ?thesis
  proof cases
    case 1
    then show ?thesis
      by (rule round64_idem_pos)
  next
    case 2
    then show ?thesis
      by simp
  next
    case 3
    then have "round64 (round64 (- x)) = round64 (- x)"
      by (intro round64_idem_pos) simp
    then show ?thesis
      by (simp add: round64_minus)
  qed
qed


lemma round64_absorb:
  assumes fb: "round64 b = b"
    and lo: "2 powr of_int e < \<bar>b\<bar>" and hi: "\<bar>b\<bar> < 2 powr of_int (e + 1)"
    and d: "\<bar>d\<bar> < 2 powr of_int (e - 54)"
  shows "round64 (b + d) = b"
proof -
  define u :: real where "u = 2 powr of_int (e - 52)"
  have u: "0 < u"
    by (simp add: u_def)
  have nz: "b \<noteq> 0"
    using lo powr_gt_zero [of 2 "of_int e"] by auto
  have eb: "\<lfloor>log 2 \<bar>b\<bar>\<rfloor> = e"
    using lo hi by (intro floor_log2_eq) simp_all
  define m where "m = round_even (b / u)"
  have bm: "b = of_int m * u"
    using fb nz by (simp add: round64_def eb Let_def m_def u_def)
  have absb: "\<bar>b\<bar> = \<bar>real_of_int m\<bar> * u"
    using u by (simp add: bm abs_mult)
  have "2 ^ 52 * u < \<bar>real_of_int m\<bar> * u"
    using lo unfolding absb u_def by (subst (asm) pow2_split') (simp add: mult.commute)
  then have "(2::real) ^ 52 < \<bar>real_of_int m\<bar>"
    using u by simp
  then have "real_of_int (2 ^ 52) < real_of_int \<bar>m\<bar>"
    by simp
  then have "2 ^ 52 < \<bar>m\<bar>"
    by (simp only: of_int_less_iff)
  then have m1: "2 ^ 52 + 1 \<le> \<bar>real_of_int m\<bar>"
    by (simp flip: of_int_abs)
  have "\<bar>real_of_int m\<bar> * u < 2 ^ 53 * u"
    using hi unfolding absb u_def by (subst (asm) pow2_split) (simp add: mult.commute)
  then have "\<bar>real_of_int m\<bar> < (2::real) ^ 53"
    using u by simp
  then have "real_of_int \<bar>m\<bar> < real_of_int (2 ^ 53)"
    by simp
  then have "\<bar>m\<bar> < 2 ^ 53"
    by (simp only: of_int_less_iff)
  then have m2: "\<bar>real_of_int m\<bar> \<le> 2 ^ 53 - 1"
    by (simp flip: of_int_abs)
  have "real_of_int (e - 54) = of_int (e - 52) - 2"
    by simp
  then have "(2::real) powr of_int (e - 54) = 2 powr (of_int (e - 52) - 2)"
    by (simp only:)
  also have "\<dots> = u / 4"
    by (simp add: powr_diff u_def)
  finally have du: "\<bar>d\<bar> < u / 4"
    using d by simp
  have l1: "2 powr of_int e \<le> \<bar>b + d\<bar>"
  proof -
    have "2 powr of_int e = 2 ^ 52 * u"
      unfolding u_def by (subst pow2_split') (rule mult.commute)
    also have "\<dots> \<le> (2 ^ 52 + 1) * u - u / 4"
      using u by (simp add: algebra_simps)
    also have "\<dots> \<le> \<bar>real_of_int m\<bar> * u - u / 4"
      using m1 u by (simp add: mult_right_mono)
    also have "\<dots> \<le> \<bar>b\<bar> - \<bar>d\<bar>"
      using du by (simp add: absb)
    also have "\<dots> \<le> \<bar>b + d\<bar>"
      by linarith
    finally show ?thesis .
  qed
  have l2: "\<bar>b + d\<bar> < 2 powr of_int (e + 1)"
  proof -
    have "\<bar>b + d\<bar> \<le> \<bar>b\<bar> + \<bar>d\<bar>"
      by linarith
    also have "\<dots> < \<bar>real_of_int m\<bar> * u + u / 4"
      using du by (simp add: absb)
    also have "\<dots> \<le> (2 ^ 53 - 1) * u + u / 4"
      using m2 u by (simp add: mult_right_mono)
    also have "\<dots> < 2 ^ 53 * u"
      using u by (simp add: algebra_simps)
    also have "\<dots> = 2 powr of_int (e + 1)"
      unfolding u_def by (subst pow2_split) (rule mult.commute)
    finally show ?thesis .
  qed
  have "(b + d) / u - of_int m = d / u"
    using u by (simp add: bm add_divide_distrib)
  moreover have "\<bar>d / u\<bar> < 1 / 2"
    using du u by (simp add: pos_divide_less_eq)
  ultimately have near: "\<bar>(b + d) / 2 powr of_int (e - 52) - of_int m\<bar> < 1 / 2"
    by (simp add: u_def)
  show ?thesis
    using round64_eqI [OF l1 l2 near] by (simp add: bm u_def)
qed

lemma round64_le:
  assumes "x \<le> of_int n * 2 powr of_int k" and "\<bar>n\<bar> < 2 ^ 53"
  shows "round64 x \<le> of_int n * 2 powr of_int k"
  using round64_mono [OF assms(1)] round64_exact [OF assms(2), of k] by simp

lemma round64_ge:
  assumes "of_int n * 2 powr of_int k \<le> x" and "\<bar>n\<bar> < 2 ^ 53"
  shows "of_int n * 2 powr of_int k \<le> round64 x"
  using round64_mono [OF assms(1)] round64_exact [OF assms(2), of k] by simp

lemma round64_int_div_pow2:
  assumes "\<bar>n\<bar> < 2 ^ 53"
  shows "round64 (of_int n / 2 ^ k) = of_int n / 2 ^ k"
proof -
  have "(2::real) powr of_int (- int k) = 1 / 2 ^ k"
    by (simp add: powr_minus powr_realpow inverse_eq_divide)
  then show ?thesis
    using round64_exact [OF assms, of "- int k"] by simp
qed

lemma round64_between:
  assumes "round64 a = a" and "round64 b = b" and "a \<le> x" and "x \<le> b"
  shows "a \<le> round64 x" and "round64 x \<le> b"
  using round64_mono [OF assms(3)] round64_mono [OF assms(4)] assms(1,2) by simp_all

lemma round64_numerals:
  "round64 1 = 1" "round64 2 = 2" "round64 4 = 4" "round64 120 = 120" "round64 240 = 240"
  "round64 360 = 360" "round64 720 = 720"
  using round64_of_int [of 1] round64_of_int [of 2] round64_of_int [of 4]
    round64_of_int [of 120] round64_of_int [of 240] round64_of_int [of 360]
    round64_of_int [of 720]
  by simp_all

lemma binary64_rnd [simp]: "rnd binary64 = round64"
  by (simp add: binary64_def)

lemma binary64_PI: "PI binary64 = 884279719003555 / 2 ^ 48"
  by (simp add: binary64_def)

lemma exact_simps [simp]: "rnd exact = (\<lambda>x. x)" "PI exact = pi"
  by (simp_all add: exact_def)

lemma binary64_PI_bounds: "3 \<le> PI binary64" "PI binary64 \<le> 13 / 4" "0 < PI binary64"
  by (simp_all add: binary64_PI)

lemma round64_neg_between:
  assumes "round64 a = a" and "- a \<le> z" and "z < 0"
  shows "- a \<le> round64 z" and "round64 z < 0"
proof -
  show "- a \<le> round64 z"
    using round64_mono [OF assms(2)] assms(1) by (simp add: round64_minus)
  show "round64 z < 0"
    using assms(3) by (rule round64_neg)
qed

lemma pow2_exact: "round64 (1 / 2 ^ k) = 1 / 2 ^ k"
  using round64_int_div_pow2 [of 1 k] by simp

subsection \<open>Rumbo\<close>

lemma toFixed2_0: "toFixed2 0 = Decimal ''0.00''"
  by (simp add: toFixed2_def decimal_digits.simps digit_def)

lemma floor_9000_half: "\<lfloor>(9000::real) + 1 / 2\<rfloor> = 9000"
  by linarith

lemma toFixed2_90: "toFixed2 90 = Decimal ''90.00''"
  by (simp add: toFixed2_def floor_9000_half decimal_digits.simps digit_def)

text \<open>
  C4. At the four exact quadrant boundaries \<open>azimuthToRumbo\<close> gives: azimuth 0 is NE with
  angle "0.00", azimuth 90 is SE with angle "90.00", azimuth 180 is SW with angle "0.00"
  and azimuth 270 is NW with angle "90.00". Each boundary belongs to the quadrant that
  starts there.
\<close>

theorem azimuthToRumbo_boundaries:
  "azimuthToRumbo 0 = \<lparr>quadrant = ''NE'', angle = Decimal ''0.00''\<rparr>
   \<and> azimuthToRumbo 90 = \<lparr>quadrant = ''SE'', angle = Decimal ''90.00''\<rparr>
   \<and> azimuthToRumbo 180 = \<lparr>quadrant = ''SW'', angle = Decimal ''0.00''\<rparr>
   \<and> azimuthToRumbo 270 = \<lparr>quadrant = ''NW'', angle = Decimal ''90.00''\<rparr>"
  by (simp add: azimuthToRumbo_def toFixed2_0 toFixed2_90)

subsection \<open>Azimuth\<close>

lemma atan2_gt: "- pi < atan2 y x"
  using arctan_lbound [of "y / x"] arctan_ubound [of "y / x"] pi_gt_zero
  by (auto simp: atan2_def divide_neg_neg)

lemma atan2_le: "atan2 y x \<le> pi"
  using arctan_lbound [of "y / x"] arctan_ubound [of "y / x"] pi_gt_zero
  by (auto simp: atan2_def divide_le_0_iff)

lemma toDegrees_gt: "- pi < r \<Longrightarrow> - 180 < toDegrees r"
  using pi_gt_zero by (simp add: toDegrees_def field_simps)

lemma toDegrees_le: "r \<le> pi \<Longrightarrow> toDegrees r \<le> 180"
  using pi_gt_zero by (simp add: toDegrees_def field_simps)

text \<open>In exact arithmetic the azimuth is the real-valued formula, and it stays below 360.\<close>

lemma calculateAzimuth_exact_eq:
  "calculateAzimuth exact lat1 lon1 lat2 lon2 =
     (let y = sin (toRadians (lon2 - lon1)) * cos (toRadians lat2);
          x = cos (toRadians lat1) * sin (toRadians lat2)
              - sin (toRadians lat1) * cos (toRadians lat2) * cos (toRadians (lon2 - lon1));
          d = toDegrees (atan2 y x)
      in if d < 0 then d + 360 else d)"
  by (simp add: calculateAzimuth_def Let_def toRadians_in_def toDegrees_in_def Math_sin_def
      Math_cos_def Math_atan2_def toRadians_def toDegrees_def)

lemma calculateAzimuth_exact_range:
  "0 \<le> calculateAzimuth exact lat1 lon1 lat2 lon2
   \<and> calculateAzimuth exact lat1 lon1 lat2 lon2 < 360"
proof -
  define y where "y = sin (toRadians (lon2 - lon1)) * cos (toRadians lat2)"
  define x where "x = cos (toRadians lat1) * sin (toRadians lat2)
              - sin (toRadians lat1) * cos (toRadians lat2) * cos (toRadians (lon2 - lon1))"
  define d where "d = toDegrees (atan2 y x)"
  have az: "calculateAzimuth exact lat1 lon1 lat2 lon2 = (if d < 0 then d + 360 else d)"
    by (simp add: calculateAzimuth_exact_eq Let_def d_def x_def y_def)
  have lo: "- 180 < d" and hi: "d \<le> 180"
    unfolding d_def by (rule toDegrees_gt [OF atan2_gt], rule toDegrees_le [OF atan2_le])
  show ?thesis
    unfolding az using lo hi by auto
qed

text \<open>
  In doubles the angle of \<open>Math.atan2\<close> is at most 4 in magnitude, so the degrees are at
  most 240 in magnitude, and rounding is monotone: a negative angle plus 360 rounds to
  at most 360.
\<close>

lemma toDegrees_in_binary64_bounds:
  assumes "- 4 \<le> r" and "r \<le> 4"
  shows "- 240 \<le> toDegrees_in binary64 r" and "toDegrees_in binary64 r \<le> 240"
proof -
  have a: "- 720 \<le> round64 (r * 180)" "round64 (r * 180) \<le> 720"
    using round64_between [of "- 720" 720 "r * 180"] assms round64_numerals
    by (simp_all add: round64_minus)
  have p: "0 < PI binary64" "3 \<le> PI binary64"
    using binary64_PI_bounds by simp_all
  have "round64 (r * 180) / PI binary64 \<le> 720 / 3"
    using a(2) p by (intro frac_le) simp_all
  moreover have "- (720 / 3) \<le> round64 (r * 180) / PI binary64"
  proof -
    have "- round64 (r * 180) / PI binary64 \<le> 720 / 3"
      using a(1) p by (intro frac_le) simp_all
    then show ?thesis
      by simp
  qed
  ultimately have b: "- 240 \<le> round64 (r * 180) / PI binary64" "round64 (r * 180) / PI binary64 \<le> 240"
    by simp_all
  show "- 240 \<le> toDegrees_in binary64 r" and "toDegrees_in binary64 r \<le> 240"
    using round64_between [OF _ _ b, of ] round64_numerals
    by (simp_all add: toDegrees_in_def round64_minus)
qed

lemma calculateAzimuth_binary64_range:
  "0 \<le> calculateAzimuth binary64 lat1 lon1 lat2 lon2
   \<and> calculateAzimuth binary64 lat1 lon1 lat2 lon2 \<le> 360"
proof -
  define y where "y = rnd binary64 (Math_sin binary64 (toRadians_in binary64 (rnd binary64 (lon2 - lon1)))
      * Math_cos binary64 (toRadians_in binary64 lat2))"
  define x where "x = rnd binary64 (rnd binary64 (Math_cos binary64 (toRadians_in binary64 lat1)
        * Math_sin binary64 (toRadians_in binary64 lat2))
      - rnd binary64 (rnd binary64 (Math_sin binary64 (toRadians_in binary64 lat1)
          * Math_cos binary64 (toRadians_in binary64 lat2))
        * Math_cos binary64 (toRadians_in binary64 (rnd binary64 (lon2 - lon1)))))"
  define az where "az = toDegrees_in binary64 (Math_atan2 binary64 y x)"
  have c: "calculateAzimuth binary64 lat1 lon1 lat2 lon2 = (if az < 0 then round64 (az + 360) else az)"
    by (simp add: calculateAzimuth_def Let_def az_def x_def y_def)
  have "- 4 \<le> atan2 y x" "atan2 y x \<le> 4"
    using atan2_gt [of y x] atan2_le [of y x] pi_less_4 by linarith+
  then have "- 4 \<le> Math_atan2 binary64 y x" "Math_atan2 binary64 y x \<le> 4"
    using round64_between [of "- 4" 4 "atan2 y x"] round64_numerals
    by (simp_all add: Math_atan2_def round64_minus)
  then have az: "- 240 \<le> az" "az \<le> 240"
    unfolding az_def by (rule toDegrees_in_binary64_bounds)+
  have "120 \<le> round64 (az + 360)" "round64 (az + 360) \<le> 360" if "az < 0"
    using round64_between [of 120 360 "az + 360"] round64_numerals az that by simp_all
  then show ?thesis
    unfolding c using az by auto
qed

lemma arctan_ge_self_neg:
  fixes t :: real
  assumes "t \<le> 0"
  shows "t \<le> arctan t"
proof -
  let ?f = "\<lambda>x. x - arctan x"
  have d: "\<exists>y. (?f has_real_derivative y) (at u) \<and> 0 \<le> y" for u :: real
  proof -
    have "(?f has_real_derivative 1 - inverse (1 + u\<^sup>2)) (at u)"
      by (auto intro!: derivative_eq_intros)
    moreover have "inverse (1 + u\<^sup>2) \<le> 1"
      by (simp add: inverse_le_1_iff)
    ultimately show ?thesis
      by (intro exI [of _ "1 - inverse (1 + u\<^sup>2)"]) simp
  qed
  have "?f t \<le> ?f 0"
    by (rule DERIV_nonneg_imp_nondecreasing [OF assms]) (use d in blast)
  then show ?thesis
    by simp
qed

lemma sin_small_neg:
  fixes t :: real
  assumes "- 1 < t" and "t < 0"
  shows "t \<le> sin t" and "sin t < 0"
proof -
  show "t \<le> sin t"
    using sin_x_le_x [of "- t"] assms by simp
  have "- pi / 2 < t"
    using assms pi_ge_two by linarith
  then show "sin t < 0"
    using assms(2) by (rule sin_less_zero)
qed

text \<open>
  C3 as stated fails on doubles. From (0, 0) to (45, -2^-60), that is
  \<open>calculateAzimuth(0, 0, 45, -8.673617379884035e-19)\<close>, the angle of \<open>Math.atan2\<close> is
  negative and tiny, and adding 360 rounds to exactly 360: the value 360 is returned.
\<close>

theorem calculateAzimuth_returns_360:
  "calculateAzimuth binary64 0 0 45 (- (1 / 2 ^ 60)) = 360"
proof -
  define \<delta> :: real where "\<delta> = 1 / 2 ^ 60"
  have \<delta>: "0 < \<delta>" "round64 \<delta> = \<delta>" "round64 (4 * \<delta>) = 4 * \<delta>" "round64 (2 * \<delta>) = 2 * \<delta>"
    "round64 (512 * \<delta>) = 512 * \<delta>"
    using pow2_exact [of 60] pow2_exact [of 58] pow2_exact [of 59] pow2_exact [of 51]
    by (simp_all add: \<delta>_def)
  note P = binary64_PI_bounds
  have \<phi>1: "toRadians_in binary64 0 = 0"
    by (simp add: toRadians_in_def)
  define \<phi>2 where "\<phi>2 = toRadians_in binary64 45"
  have "135 \<le> 45 * PI binary64" "45 * PI binary64 \<le> 147"
    using P by simp_all
  then have "135 \<le> round64 (45 * PI binary64)" "round64 (45 * PI binary64) \<le> 147"
    using round64_between [of 135 147 "45 * PI binary64"] round64_of_int [of 135] round64_of_int [of 147]
    by simp_all
  then have "3 / 4 \<le> round64 (45 * PI binary64) / 180" "round64 (45 * PI binary64) / 180 \<le> 7 / 8"
    by simp_all
  then have \<phi>2: "3 / 4 \<le> \<phi>2" "\<phi>2 \<le> 7 / 8"
    using round64_between [of "3 / 4" "7 / 8" "round64 (45 * PI binary64) / 180"]
      round64_int_div_pow2 [of 3 2] round64_int_div_pow2 [of 7 3]
    by (simp_all add: \<phi>2_def toRadians_in_def)
  have "pi / 6 \<le> \<phi>2" "\<phi>2 < pi / 2"
    using \<phi>2 pi_less_4 pi_ge_two by linarith+
  then have "sin (pi / 6) \<le> sin \<phi>2" "0 < cos \<phi>2"
    using pi_gt_zero by (auto intro!: sin_monotone_2pi_le cos_gt_zero_pi)
  then have sc: "1 / 2 \<le> sin \<phi>2" "0 < cos \<phi>2"
    by (simp_all add: sin_30)
  define s2 where "s2 = Math_sin binary64 \<phi>2"
  define c2 where "c2 = Math_cos binary64 \<phi>2"
  have s2: "1 / 2 \<le> s2" "s2 \<le> 1" "round64 s2 = s2"
    using round64_between [of "1 / 2" 1 "sin \<phi>2"] round64_int_div_pow2 [of 1 1]
      round64_of_int [of 1] sc(1)
    by (simp_all add: s2_def Math_sin_def)
  have c2: "0 < c2" "c2 \<le> 1"
    using round64_pos [OF sc(2)] round64_mono [OF cos_le_one [of \<phi>2]] round64_of_int [of 1]
    by (simp_all add: c2_def Math_cos_def)
  define dl where "dl = toRadians_in binary64 (rnd binary64 (- (1 / 2 ^ 60) - 0))"
  have "- (4 * \<delta>) \<le> - \<delta> * PI binary64" "- \<delta> * PI binary64 < 0"
    using \<delta>(1) P by (simp_all add: mult_pos_pos)
  then have "- (4 * \<delta>) \<le> round64 (- \<delta> * PI binary64)" "round64 (- \<delta> * PI binary64) < 0"
    using round64_neg_between [OF \<delta>(3)] by blast+
  then have "- \<delta> \<le> round64 (- \<delta> * PI binary64) / 180" "round64 (- \<delta> * PI binary64) / 180 < 0"
    using \<delta>(1) by (simp_all add: divide_neg_pos) 
  then have "- \<delta> \<le> round64 (round64 (- \<delta> * PI binary64) / 180)"
    "round64 (round64 (- \<delta> * PI binary64) / 180) < 0"
    using round64_neg_between [OF \<delta>(2)] by blast+
  moreover have "round64 (- \<delta>) = - \<delta>"
    using \<delta>(2) by (simp only: round64_minus)
  then have "dl = round64 (round64 (- \<delta> * PI binary64) / 180)"
    by (simp only: dl_def toRadians_in_def binary64_rnd diff_zero \<delta>_def)
  ultimately have dl: "- \<delta> \<le> dl" "dl < 0"
    by simp_all
  have "- 1 < dl"
    using dl(1) by (simp add: \<delta>_def) 
  then have "dl \<le> sin dl" "sin dl < 0"
    using dl(2) by (rule sin_small_neg)+
  then have "- \<delta> \<le> sin dl" "sin dl < 0"
    using dl(1) by simp_all
  then have "- \<delta> \<le> round64 (sin dl)" "round64 (sin dl) < 0"
    using round64_neg_between [OF \<delta>(2)] by blast+
  define sd where "sd = Math_sin binary64 dl"
  have sd: "- \<delta> \<le> sd" "sd < 0"
    using \<open>- \<delta> \<le> round64 (sin dl)\<close> \<open>round64 (sin dl) < 0\<close> by (simp_all add: sd_def Math_sin_def)
  define y where "y = rnd binary64 (sd * c2)"
  have "sd * c2 < 0"
    using sd(2) c2(1) by (rule mult_neg_pos)
  moreover have "- \<delta> \<le> sd * c2"
  proof -
    have "(- sd) * c2 \<le> \<delta> * 1"
      using sd c2 \<delta>(1) by (intro mult_mono) simp_all
    then show ?thesis
      by simp
  qed
  ultimately have y: "- \<delta> \<le> y" "y < 0"
    using round64_neg_between [OF \<delta>(2), of "sd * c2"] by (simp_all add: y_def)
  define x where "x = rnd binary64 (rnd binary64 (Math_cos binary64 0 * s2)
      - rnd binary64 (rnd binary64 (Math_sin binary64 0 * c2) * Math_cos binary64 dl))"
  have x: "x = s2"
    using round64_of_int [of 1] s2(3) by (simp add: x_def Math_cos_def Math_sin_def)
  have xp: "0 < x" "1 / 2 \<le> x"
    using s2 x by simp_all
  have "y / x < 0"
    using y(2) xp(1) by (rule divide_neg_pos)
  moreover have "- (2 * \<delta>) \<le> y / x"
  proof -
    have "(- y) / x \<le> \<delta> / (1 / 2)"
      using y xp \<delta>(1) by (intro frac_le) simp_all
    then show ?thesis
      by simp
  qed
  moreover have "atan2 y x = arctan (y / x)"
    using xp(1) by (simp add: atan2_def)
  ultimately have "- (2 * \<delta>) \<le> atan2 y x" "atan2 y x < 0"
    using arctan_ge_self_neg [of "y / x"] by simp_all
  then have r: "- (2 * \<delta>) \<le> Math_atan2 binary64 y x" "Math_atan2 binary64 y x < 0"
    using round64_neg_between [OF \<delta>(4), of "atan2 y x"] by (simp_all add: Math_atan2_def)
  define r where "r = Math_atan2 binary64 y x"
  have "- (512 * \<delta>) \<le> r * 180" "r * 180 < 0"
    using r \<delta>(1) by (simp_all add: r_def)
  then have q: "- (512 * \<delta>) \<le> round64 (r * 180)" "round64 (r * 180) < 0"
    using round64_neg_between [OF \<delta>(5)] by blast+
  have "round64 (r * 180) / PI binary64 < 0"
    using q(2) P(3) by (rule divide_neg_pos)
  moreover have "- (512 * \<delta>) \<le> round64 (r * 180) / PI binary64"
  proof -
    have "(- round64 (r * 180)) / PI binary64 \<le> (512 * \<delta>) / 1"
      using q \<delta>(1) P by (intro frac_le) simp_all
    then show ?thesis
      by simp
  qed
  ultimately have "- (512 * \<delta>) \<le> round64 (round64 (r * 180) / PI binary64)"
    "round64 (round64 (r * 180) / PI binary64) < 0"
    using round64_neg_between [OF \<delta>(5)] by blast+
  define az where "az = toDegrees_in binary64 r"
  have az: "- (512 * \<delta>) \<le> az" "az < 0"
    using \<open>- (512 * \<delta>) \<le> round64 (round64 (r * 180) / PI binary64)\<close>
      \<open>round64 (round64 (r * 180) / PI binary64) < 0\<close>
    by (simp_all add: az_def toDegrees_in_def)
  have a1: "round64 360 = 360"
    using round64_of_int [of 360] by simp
  have a2: "2 powr of_int 8 < \<bar>360::real\<bar>"
    by simp
  have a3: "\<bar>360::real\<bar> < 2 powr of_int (8 + 1)"
    by simp
  have a4: "\<bar>az\<bar> < 2 powr of_int (8 - 54)"
    using az by (simp add: \<delta>_def powr_minus)
  have "round64 (360 + az) = 360"
    by (rule round64_absorb [OF a1 a2 a3 a4])
  then have n: "round64 (az + 360) = 360"
    by (simp add: add.commute)
  have "calculateAzimuth binary64 0 0 45 (- (1 / 2 ^ 60)) = (if az < 0 then round64 (az + 360) else az)"
    by (simp add: calculateAzimuth_def Let_def \<phi>1 az_def r_def x_def y_def sd_def dl_def c2_def
        s2_def \<phi>2_def)
  then show ?thesis
    using az(2) n by simp
qed

text \<open>
  C3 (amended). For every pair of points \<open>calculateAzimuth\<close> returns \<open>atan2(y, x)\<close> in
  degrees with 360 added exactly when that angle is negative, and the value lies between
  0 and 360, both included. In exact real arithmetic it is below 360; in double
  arithmetic 360 itself is returned when the sum rounds up to it.
\<close>

theorem calculateAzimuth_range:
  "calculateAzimuth ar lat1 lon1 lat2 lon2 =
     (let \<phi>1 = toRadians_in ar lat1;
          \<phi>2 = toRadians_in ar lat2;
          dlam = toRadians_in ar (rnd ar (lon2 - lon1));
          y = rnd ar (Math_sin ar dlam * Math_cos ar \<phi>2);
          x = rnd ar (rnd ar (Math_cos ar \<phi>1 * Math_sin ar \<phi>2)
                - rnd ar (rnd ar (Math_sin ar \<phi>1 * Math_cos ar \<phi>2) * Math_cos ar dlam));
          d = toDegrees_in ar (Math_atan2 ar y x)
      in if d < 0 then rnd ar (d + 360) else d)
   \<and> 0 \<le> calculateAzimuth exact lat1 lon1 lat2 lon2
   \<and> calculateAzimuth exact lat1 lon1 lat2 lon2 < 360
   \<and> 0 \<le> calculateAzimuth binary64 lat1 lon1 lat2 lon2
   \<and> calculateAzimuth binary64 lat1 lon1 lat2 lon2 \<le> 360"
proof -
  have "calculateAzimuth ar lat1 lon1 lat2 lon2 =
     (let \<phi>1 = toRadians_in ar lat1;
          \<phi>2 = toRadians_in ar lat2;
          dlam = toRadians_in ar (rnd ar (lon2 - lon1));
          y = rnd ar (Math_sin ar dlam * Math_cos ar \<phi>2);
          x = rnd ar (rnd ar (Math_cos ar \<phi>1 * Math_sin ar \<phi>2)
                - rnd ar (rnd ar (Math_sin ar \<phi>1 * Math_cos ar \<phi>2) * Math_cos ar dlam));
          d = toDegrees_in ar (Math_atan2 ar y x)
      in if d < 0 then rnd ar (d + 360) else d)"
    by (simp add: calculateAzimuth_def)
  then show ?thesis
    using calculateAzimuth_exact_range [of lat1 lon1 lat2 lon2]
      calculateAzimuth_binary64_range [of lat1 lon1 lat2 lon2]
    by blast
qed

subsection \<open>UTM\<close>

lemma toRadians_minus: "toRadians (- d) = - toRadians d"
  by (simp add: toRadians_def)

lemma utm_series_zone: "fst (utm_series lat lon) = \<lfloor>(lon + 180) / 6\<rfloor> + 1"
  by (simp add: utm_series_def Let_def)

lemma utm_series_easting_even:
  "fst (snd (utm_series (- lat) lon)) = fst (snd (utm_series lat lon))"
  by (simp add: utm_series_def Let_def toRadians_minus)

lemma latLonToUTM_zone: "zone (latLonToUTM lat lon) = \<lfloor>(lon + 180) / 6\<rfloor> + 1"
  by (simp add: latLonToUTM_def utm_series_def Let_def)

text \<open>West of the antimeridian the zone is one of the sixty.\<close>

lemma latLonToUTM_zone_range:
  "- 180 \<le> lon \<Longrightarrow> lon < 180 \<Longrightarrow>
     1 \<le> zone (latLonToUTM lat lon) \<and> zone (latLonToUTM lat lon) \<le> 60"
  unfolding latLonToUTM_zone by (simp add: floor_less_iff le_floor_iff)

text \<open>
  C2. The zone returned by \<open>latLonToUTM\<close> is \<open>floor((lon + 180) / 6) + 1\<close>, and for a
  longitude from -180 to 180 it should be one of 1 to 60. At the longitude 180 itself,
  which the function's documentation admits, the zone returned is 61.
\<close>

theorem latLonToUTM_zone_at_180: "zone (latLonToUTM 0 180) = 61"
  by (simp add: latLonToUTM_zone)

text \<open>
  C6. For every input of \<open>latLonToUTM\<close>: a negative latitude gives hemisphere "S" and
  10,000,000 added to the northing before it is rendered; any other latitude gives
  hemisphere "N" and no offset. The easting carries no such offset, the zone depends on
  the longitude alone, and neither changes when the sign of the latitude is flipped.
\<close>

theorem latLonToUTM_hemisphere:
  "hemisphere (latLonToUTM lat lon) = (if lat < 0 then ''S'' else ''N'')
   \<and> northing (latLonToUTM lat lon) =
       toFixed2 (snd (snd (utm_series lat lon)) + (if lat < 0 then 10000000 else 0))
   \<and> easting (latLonToUTM lat lon) = toFixed2 (fst (snd (utm_series lat lon)))
   \<and> zone (latLonToUTM lat lon) = \<lfloor>(lon + 180) / 6\<rfloor> + 1
   \<and> zone (latLonToUTM (- lat) lon) = zone (latLonToUTM lat lon)
   \<and> easting (latLonToUTM (- lat) lon) = easting (latLonToUTM lat lon)"
proof -
  obtain z e n where s: "utm_series lat lon = (z, e, n)"
    by (cases "utm_series lat lon") auto
  obtain z' e' n' where s': "utm_series (- lat) lon = (z', e', n')"
    by (cases "utm_series (- lat) lon") auto
  have z: "z = \<lfloor>(lon + 180) / 6\<rfloor> + 1" "z' = z"
    using utm_series_zone [of lat lon] utm_series_zone [of "- lat" lon] s s' by simp_all
  have e: "e' = e"
    using utm_series_easting_even [of lat lon] s s' by simp
  show ?thesis
    by (simp add: latLonToUTM_def s s' z e Let_def)
qed

subsection \<open>Projections\<close>

lemma robinsonTable_length: "length robinsonTable = 19"
  by (simp add: robinsonTable_def)

lemma robinson_idx_bounds: "0 \<le> robinson_idx lat \<and> robinson_idx lat \<le> 17"
  by (simp add: robinson_idx_def robinsonTable_length Let_def)

lemma js_index_Some: "0 \<le> i \<Longrightarrow> i < int (length xs) \<Longrightarrow> \<exists>v. js_index xs i = Some v"
  by (simp add: js_index_def)

lemma robinson_xy_Inr: "\<exists>xy. robinson_xy lat lon = Inr xy"
proof -
  have b: "0 \<le> robinson_idx lat" "robinson_idx lat \<le> 17"
    using robinson_idx_bounds by simp_all
  obtain r0 where r0: "js_index robinsonTable (robinson_idx lat) = Some r0"
    using js_index_Some [of "robinson_idx lat" robinsonTable] b robinsonTable_length by auto
  obtain r1 where r1: "js_index robinsonTable (robinson_idx lat + 1) = Some r1"
    using js_index_Some [of "robinson_idx lat + 1" robinsonTable] b robinsonTable_length by auto
  show ?thesis
    by (cases r0; cases r1) (simp add: robinson_xy_def r0 r1 Let_def)
qed

text \<open>
  C8. For every latitude and longitude and every projection id other than mercator,
  mollweide, sinusoidal, robinson and lambert, \<open>projectPoint\<close> returns the equirectangular
  point: \<open>x = (lon + 180) / 360 * 100\<close> and \<open>y = (90 - lat) / 180 * 100\<close>.
\<close>

theorem projectPoint_default:
  "projection \<notin> {''mercator'', ''mollweide'', ''sinusoidal'', ''robinson'', ''lambert''}
   \<Longrightarrow> projectPoint lat lon projection width height =
       Inr \<lparr>px = (lon + 180) / 360 * 100, py = (90 - lat) / 180 * 100\<rparr>"
  by (simp add: projectPoint_def Let_def)

theorem projectPoint_default_witness:
  "''equirectangular'' \<notin> {''mercator'', ''mollweide'', ''sinusoidal'', ''robinson'', ''lambert''}
   \<and> projectPoint 45 (- 90) ''equirectangular'' 100 100 = Inr \<lparr>px = 25, py = 25\<rparr>"
  using projectPoint_default [of "''equirectangular''" 45 "- 90" 100 100] by simp

text \<open>
  C10. In the robinson branch of \<open>projectPoint\<close>, for every real latitude (also beyond 90
  degrees either way), the row index is \<open>floor(|lat| / 5)\<close> clamped to 17, so it lies
  between 0 and 17; the table has 19 rows, both \<open>robinsonTable[idx]\<close> and
  \<open>robinsonTable[idx + 1]\<close> are rows of the table, and the branch returns a point without
  throwing.
\<close>

theorem robinson_index_in_table:
  "robinson_idx lat = (if 18 \<le> \<lfloor>\<bar>lat\<bar> / 5\<rfloor> then 17 else \<lfloor>\<bar>lat\<bar> / 5\<rfloor>)
   \<and> 0 \<le> robinson_idx lat \<and> robinson_idx lat \<le> 17
   \<and> length robinsonTable = 19
   \<and> js_index robinsonTable (robinson_idx lat) \<noteq> None
   \<and> js_index robinsonTable (robinson_idx lat + 1) \<noteq> None
   \<and> (\<exists>p. projectPoint lat lon ''robinson'' width height = Inr p)"
proof -
  have b: "0 \<le> robinson_idx lat" "robinson_idx lat \<le> 17"
    using robinson_idx_bounds by simp_all
  have i0: "js_index robinsonTable (robinson_idx lat) \<noteq> None"
    using js_index_Some [of "robinson_idx lat" robinsonTable] b robinsonTable_length by auto
  have i1: "js_index robinsonTable (robinson_idx lat + 1) \<noteq> None"
    using js_index_Some [of "robinson_idx lat + 1" robinsonTable] b robinsonTable_length by auto
  obtain xy where xy: "robinson_xy lat lon = Inr xy"
    using robinson_xy_Inr by blast
  have p: "\<exists>p. projectPoint lat lon ''robinson'' width height = Inr p"
    by (cases xy) (simp add: projectPoint_def xy Let_def)
  have f: "robinson_idx lat = (if 18 \<le> \<lfloor>\<bar>lat\<bar> / 5\<rfloor> then 17 else \<lfloor>\<bar>lat\<bar> / 5\<rfloor>)"
    by (simp add: robinson_idx_def robinsonTable_length Let_def)
  show ?thesis
    using b i0 i1 p f robinsonTable_length by blast
qed

subsection \<open>Vincenty\<close>

lemma vincenty_pass_same: "vincenty_pass s c s c L 0 = None"
  by (simp add: vincenty_pass_def Let_def mult.commute)

lemma toRadians_0: "toRadians 0 = 0"
  by (simp add: toRadians_def)

text \<open>
  C5. For every point, \<open>vincentyDistance\<close> of the point and itself is exactly 0: the
  first pass of the loop finds \<open>sin\<sigma> = 0\<close> and returns 0 at once, after one pass, and no
  error is raised.
\<close>

theorem vincentyDistance_coincident:
  "vincentyDistance lat lon lat lon = 0 \<and> vincenty_iterate lat lon lat lon = (None, 1)"
proof -
  have "vincenty_iterate lat lon lat lon = (None, 1)"
    by (simp add: vincenty_iterate_def Let_def toRadians_0 vincenty_loop.simps vincenty_pass_same)
  then show ?thesis
    by (simp add: vincentyDistance_def)
qed



lemma sin_sigma_sq:
  fixes s1 c1 s2 c2 l :: real
  assumes u1: "s1\<^sup>2 + c1\<^sup>2 = 1" and u2: "s2\<^sup>2 + c2\<^sup>2 = 1"
  shows "(c2 * sin l)\<^sup>2 + (c1 * s2 - s1 * c2 * cos l)\<^sup>2 = 1 - (s1 * s2 + c1 * c2 * cos l)\<^sup>2"
proof -
  have t: "c2\<^sup>2 * (cos l)\<^sup>2 + c2\<^sup>2 * (sin l)\<^sup>2 = c2\<^sup>2"
    by (simp flip: distrib_left)
  have "(c2 * sin l)\<^sup>2 + (c1 * s2 - s1 * c2 * cos l)\<^sup>2 + (s1 * s2 + c1 * c2 * cos l)\<^sup>2
        = (s1\<^sup>2 + c1\<^sup>2) * (s2\<^sup>2 + c2\<^sup>2 * (cos l)\<^sup>2) + c2\<^sup>2 * (sin l)\<^sup>2"
    by (simp add: power2_eq_square algebra_simps)
  also have "\<dots> = s2\<^sup>2 + (c2\<^sup>2 * (cos l)\<^sup>2 + c2\<^sup>2 * (sin l)\<^sup>2)"
    unfolding u1 by simp
  also have "\<dots> = 1"
    unfolding t by (rule u2)
  finally show ?thesis
    by linarith
qed

lemma sin_sigma_swap:
  fixes s1 c1 s2 c2 l :: real
  assumes u1: "s1\<^sup>2 + c1\<^sup>2 = 1" and u2: "s2\<^sup>2 + c2\<^sup>2 = 1"
  shows "(c1 * sin (- l))\<^sup>2 + (c2 * s1 - s2 * c1 * cos (- l))\<^sup>2
         = (c2 * sin l)\<^sup>2 + (c1 * s2 - s1 * c2 * cos l)\<^sup>2"
proof -
  have "(c1 * sin (- l))\<^sup>2 + (c2 * s1 - s2 * c1 * cos (- l))\<^sup>2
        = 1 - (s2 * s1 + c2 * c1 * cos (- l))\<^sup>2"
    by (rule sin_sigma_sq [OF u2 u1])
  also have "\<dots> = 1 - (s1 * s2 + c1 * c2 * cos l)\<^sup>2"
    by (simp add: mult.commute)
  also have "\<dots> = (c2 * sin l)\<^sup>2 + (c1 * s2 - s1 * c2 * cos l)\<^sup>2"
    by (rule sin_sigma_sq [OF u1 u2, symmetric])
  finally show ?thesis .
qed

lemma vincenty_pass_swap:
  assumes u1: "s1\<^sup>2 + c1\<^sup>2 = 1" and u2: "s2\<^sup>2 + c2\<^sup>2 = 1"
  shows "vincenty_pass s2 c2 s1 c1 (- L) (- l) = map_option mirror_vars (vincenty_pass s1 c1 s2 c2 L l)"
proof -
  have sw: "(c1 * sin (- l))\<^sup>2 + (c2 * s1 - s2 * c1 * cos (- l))\<^sup>2
         = (c2 * sin l)\<^sup>2 + (c1 * s2 - s1 * c2 * cos l)\<^sup>2"
    by (rule sin_sigma_swap [OF u1 u2])
  show ?thesis
  proof (cases "sqrt ((c2 * sin l)\<^sup>2 + (c1 * s2 - s1 * c2 * cos l)\<^sup>2) = 0")
    case True
    then show ?thesis
      by (simp only: vincenty_pass_def Let_def sw) simp
  next
    case False
    then show ?thesis
      by (simp only: vincenty_pass_def Let_def sw) (simp add: mirror_vars_def mult_ac)
  qed
qed


lemma mirror_vars_gap:
  "\<bar>lam (mirror_vars v) - lam_prev (mirror_vars v)\<bar> = \<bar>lam v - lam_prev v\<bar>"
  by (simp add: mirror_vars_def)

lemma mirror_vars_lam: "lam (mirror_vars v) = - lam v"
  by (simp add: mirror_vars_def)

lemma vincenty_final_mirror: "vincenty_final (mirror_vars v) = vincenty_final v"
  by (simp add: vincenty_final_def mirror_vars_def)

lemma vincenty_loop_Some:
  "vincenty_pass s1 c1 s2 c2 L l = Some v \<Longrightarrow>
   vincenty_loop s1 c1 s2 c2 L l iterLimit passes =
     (if 1 / 10 ^ 12 < \<bar>lam v - lam_prev v\<bar> \<and> 0 < iterLimit - 1
      then vincenty_loop s1 c1 s2 c2 L (lam v) (iterLimit - 1) (passes + 1)
      else (Some v, passes + 1))"
  by (subst vincenty_loop.simps) (simp only: option.case)

lemma vincenty_loop_None:
  "vincenty_pass s1 c1 s2 c2 L l = None \<Longrightarrow>
   vincenty_loop s1 c1 s2 c2 L l iterLimit passes = (None, passes + 1)"
  by (subst vincenty_loop.simps) (simp only: option.case)

lemma vincenty_loop_swap:
  assumes u1: "s1\<^sup>2 + c1\<^sup>2 = 1" and u2: "s2\<^sup>2 + c2\<^sup>2 = 1"
  shows "vincenty_loop s2 c2 s1 c1 (- L) (- l) iterLimit passes
         = apfst (map_option mirror_vars) (vincenty_loop s1 c1 s2 c2 L l iterLimit passes)"
  using u1 u2
proof (induction s1 c1 s2 c2 L l iterLimit passes rule: vincenty_loop.induct)
  case (1 s1 c1 s2 c2 L l iterLimit passes)
  note sw = vincenty_pass_swap [OF "1.prems", of L l]
  show ?case
  proof (cases "vincenty_pass s1 c1 s2 c2 L l")
    case None
    then have "vincenty_pass s2 c2 s1 c1 (- L) (- l) = None"
      using sw by simp
    then show ?thesis
      by (simp add: vincenty_loop_None None)
  next
    case (Some v)
    then have sw': "vincenty_pass s2 c2 s1 c1 (- L) (- l) = Some (mirror_vars v)"
      using sw by simp
    note l = vincenty_loop_Some [OF sw', of iterLimit passes, unfolded mirror_vars_gap, unfolded mirror_vars_lam]
    note r = vincenty_loop_Some [OF Some, of iterLimit passes]
    show ?thesis
    proof (cases "1 / 10 ^ 12 < \<bar>lam v - lam_prev v\<bar> \<and> 0 < iterLimit - 1")
      case True
      have "vincenty_loop s2 c2 s1 c1 (- L) (- lam v) (iterLimit - 1) (passes + 1)
            = apfst (map_option mirror_vars)
                (vincenty_loop s1 c1 s2 c2 L (lam v) (iterLimit - 1) (passes + 1))"
        using "1.IH" [OF Some True "1.prems"] .
      then show ?thesis
        unfolding l r if_P [OF True] .
    next
      case False
      show ?thesis
        unfolding l r if_not_P [OF False] by simp
    qed
  qed
qed

lemma reduced_latitude_unit:
  fixes t :: real
  shows "(t * (1 / sqrt (1 + t * t)))\<^sup>2 + (1 / sqrt (1 + t * t))\<^sup>2 = 1"
proof -
  have p: "0 < 1 + t * t"
    by (simp add: add_pos_nonneg)
  have "(t * (1 / sqrt (1 + t * t)))\<^sup>2 + (1 / sqrt (1 + t * t))\<^sup>2
        = (t * t + 1) / (sqrt (1 + t * t))\<^sup>2"
    by (simp add: power2_eq_square field_simps)
  also have "\<dots> = (t * t + 1) / (1 + t * t)"
    using p by simp
  also have "\<dots> = 1"
    using p by simp
  finally show ?thesis .
qed

lemma vincenty_iterate_swap:
  "vincenty_iterate lat2 lon2 lat1 lon1
   = apfst (map_option mirror_vars) (vincenty_iterate lat1 lon1 lat2 lon2)"
proof -
  have L: "toRadians (lon1 - lon2) = - toRadians (lon2 - lon1)"
    by (simp only: toRadians_minus [symmetric] minus_diff_eq)
  show ?thesis
    unfolding vincenty_iterate_def Let_def L
    by (rule vincenty_loop_swap [OF reduced_latitude_unit reduced_latitude_unit])
qed

text \<open>
  C1. For every pair of points, \<open>vincentyDistance\<close> from the first to the second equals
  \<open>vincentyDistance\<close> from the second to the first (in exact real arithmetic).
\<close>

theorem vincentyDistance_symmetric:
  "vincentyDistance lat1 lon1 lat2 lon2 = vincentyDistance lat2 lon2 lat1 lon1"
proof (cases "fst (vincenty_iterate lat1 lon1 lat2 lon2)")
  case None
  then show ?thesis
    by (simp add: vincentyDistance_def vincenty_iterate_swap [of lat2 lon2 lat1 lon1])
next
  case (Some v)
  then show ?thesis
    by (simp add: vincentyDistance_def vincenty_iterate_swap [of lat2 lon2 lat1 lon1]
        vincenty_final_mirror)
qed

subsection \<open>Polygon area\<close>

text \<open>In exact arithmetic the loop body adds the real-valued edge term.\<close>

lemma area_step_exact:
  "area_step exact pts i area =
     (let n = length pts;
          j = (i + 1) mod n;
          lat1 = toRadians (pt_lat (pts ! i));
          lat2 = toRadians (pt_lat (pts ! j));
          dLon = toRadians (pt_lon (pts ! j) - pt_lon (pts ! i))
      in area + dLon * (2 + sin lat1 + sin lat2))"
  by (simp add: area_step_def Let_def toRadians_in_def Math_sin_def toRadians_def)

lemma area_step_acc: "area_step exact pts i a = a + area_step exact pts i 0"
  by (simp add: area_step_exact Let_def)

lemma fold_area_step:
  "fold (area_step exact pts) [0..<k] a = a + (\<Sum>i<k. area_step exact pts i 0)"
proof (induction k)
  case 0
  show ?case by simp
next
  case (Suc k)
  have "fold (area_step exact pts) [0..<Suc k] a = area_step exact pts k (fold (area_step exact pts) [0..<k] a)"
    by simp
  also have "\<dots> = fold (area_step exact pts) [0..<k] a + area_step exact pts k 0"
    by (rule area_step_acc)
  finally show ?case
    using Suc.IH by simp
qed

lemma edge_flip:
  "0 + toRadians (a - b) * (2 + s + t) = - (0 + toRadians (b - a) * (2 + t + s))"
proof -
  have "toRadians (a - b) = - toRadians (b - a)"
    by (simp only: toRadians_minus [symmetric] minus_diff_eq)
  then show ?thesis
    by simp
qed

lemma area_step_rev_inner:
  assumes "Suc i < length pts"
  shows "area_step exact (rev pts) i 0 = - area_step exact pts (length pts - Suc (Suc i)) 0"
proof -
  let ?n = "length pts"
  have i: "i < ?n" "Suc i < ?n"
    using assms by simp_all
  have m1: "(i + 1) mod ?n = Suc i"
    using assms by simp
  have m2: "(?n - Suc (Suc i) + 1) mod ?n = ?n - Suc i"
    using assms by (simp add: Suc_diff_Suc)
  have r1: "rev pts ! i = pts ! (?n - Suc i)"
    using i by (simp add: rev_nth)
  have r2: "rev pts ! Suc i = pts ! (?n - Suc (Suc i))"
    using i by (simp add: rev_nth)
  show ?thesis
    unfolding area_step_exact Let_def length_rev m1 m2 r1 r2
    by (rule edge_flip)
qed

lemma area_step_rev_last:
  assumes "0 < length pts"
  shows "area_step exact (rev pts) (length pts - 1) 0 = - area_step exact pts (length pts - 1) 0"
proof -
  let ?n = "length pts"
  have m: "(?n - 1 + 1) mod ?n = 0"
    using assms by simp
  have r1: "rev pts ! (?n - 1) = pts ! 0"
    using assms by (simp add: rev_nth)
  have r2: "rev pts ! 0 = pts ! (?n - 1)"
    using assms by (simp add: rev_nth)
  show ?thesis
    unfolding area_step_exact Let_def length_rev m r1 r2
    by (rule edge_flip)
qed

lemma area_sum_rev:
  "(\<Sum>i<length pts. area_step exact (rev pts) i 0) = - (\<Sum>i<length pts. area_step exact pts i 0)"
proof (cases "length pts")
  case 0
  then show ?thesis by simp
next
  case (Suc m)
  have inner: "(\<Sum>i<m. area_step exact (rev pts) i 0) = (\<Sum>i<m. - area_step exact pts (m - Suc i) 0)"
  proof (rule sum.cong)
    fix i assume "i \<in> {..<m}"
    then have "Suc i < length pts"
      using Suc by simp
    from area_step_rev_inner [OF this] show "area_step exact (rev pts) i 0 = - area_step exact pts (m - Suc i) 0"
      using Suc by simp
  qed simp
  have flip: "(\<Sum>i<m. area_step exact pts (m - Suc i) 0) = (\<Sum>i<m. area_step exact pts i 0)"
    by (rule sum.nat_diff_reindex)
  have last: "area_step exact (rev pts) m 0 = - area_step exact pts m 0"
    using area_step_rev_last [of pts] Suc by simp
  show ?thesis
    unfolding Suc sum.lessThan_Suc inner last sum_negf flip by simp
qed

lemma calculateGeodesicArea_exact_rev:
  "fold (area_step exact (rev pts)) [0..<length (rev pts)] 0
     = - fold (area_step exact pts) [0..<length pts] 0
   \<and> calculateGeodesicArea exact (rev pts) = calculateGeodesicArea exact pts"
proof -
  have neg: "fold (area_step exact (rev pts)) [0..<length pts] 0
             = - fold (area_step exact pts) [0..<length pts] 0"
    using fold_area_step [of "rev pts" "length pts" 0] fold_area_step [of pts "length pts" 0]
      area_sum_rev [of pts]
    by simp
  then show ?thesis
    by (simp add: calculateGeodesicArea_def Let_def)
qed

lemma calculateGeodesicArea_nonneg: "0 \<le> calculateGeodesicArea ar pts"
  by (simp add: calculateGeodesicArea_def Let_def)

text \<open>Doubles: the vertices of the example lie on the equator, where every sine is 0.\<close>

lemma toRadians_in_binary64_minus:
  "toRadians_in binary64 (- d) = - toRadians_in binary64 d"
  by (simp add: toRadians_in_def round64_minus)

lemma toRadians_in_binary64_0: "toRadians_in binary64 0 = 0"
  by (simp add: toRadians_in_def)

lemma area_step_equator:
  assumes "pt_lat (pts ! i) = 0" and "pt_lat (pts ! ((i + 1) mod length pts)) = 0"
  shows "area_step binary64 pts i area =
         round64 (area + round64 (toRadians_in binary64
           (round64 (pt_lon (pts ! ((i + 1) mod length pts)) - pt_lon (pts ! i))) * 2))"
  using round64_of_int [of 2] assms
  by (simp add: area_step_def Let_def toRadians_in_binary64_0 Math_sin_def)

lemma upt_4: "[0..<4] = [0, 1, 2, 3]"
  by (simp add: upt_rec)

text \<open>
  C7 as stated fails on doubles. The list (0,0), (0,90), (0,0), (0,2^-50) of
  \<open>{lat, lon}\<close> points has area 0: the two long edges cancel first and then the two short
  ones. In the reverse order the first short edge is lost when the long edge is added
  to it, the second one remains, and the area is positive.
\<close>

theorem calculateGeodesicArea_reversal_differs:
  "calculateGeodesicArea binary64
     [\<lparr>pt_lat = 0, pt_lon = 0\<rparr>, \<lparr>pt_lat = 0, pt_lon = 90\<rparr>,
      \<lparr>pt_lat = 0, pt_lon = 0\<rparr>, \<lparr>pt_lat = 0, pt_lon = 1 / 2 ^ 50\<rparr>] = 0
   \<and> 0 < calculateGeodesicArea binary64
       (rev [\<lparr>pt_lat = 0, pt_lon = 0\<rparr>, \<lparr>pt_lat = 0, pt_lon = 90\<rparr>,
             \<lparr>pt_lat = 0, pt_lon = 0\<rparr>, \<lparr>pt_lat = 0, pt_lon = 1 / 2 ^ 50\<rparr>])
   \<and> calculateGeodesicArea binary64
       (rev [\<lparr>pt_lat = 0, pt_lon = 0\<rparr>, \<lparr>pt_lat = 0, pt_lon = 90\<rparr>,
             \<lparr>pt_lat = 0, pt_lon = 0\<rparr>, \<lparr>pt_lat = 0, pt_lon = 1 / 2 ^ 50\<rparr>])
     \<noteq> calculateGeodesicArea binary64
         [\<lparr>pt_lat = 0, pt_lon = 0\<rparr>, \<lparr>pt_lat = 0, pt_lon = 90\<rparr>,
          \<lparr>pt_lat = 0, pt_lon = 0\<rparr>, \<lparr>pt_lat = 0, pt_lon = 1 / 2 ^ 50\<rparr>]"
proof -
  define \<delta> :: real where "\<delta> = 1 / 2 ^ 50"
  define pts where "pts = [\<lparr>pt_lat = 0, pt_lon = 0\<rparr>, \<lparr>pt_lat = 0, pt_lon = 90\<rparr>,
      \<lparr>pt_lat = 0, pt_lon = 0\<rparr>, \<lparr>pt_lat = 0, pt_lon = \<delta>\<rparr>]"
  define rpts where "rpts = [\<lparr>pt_lat = 0, pt_lon = \<delta>\<rparr>, \<lparr>pt_lat = 0, pt_lon = 0\<rparr>,
      \<lparr>pt_lat = 0, pt_lon = 90\<rparr>, \<lparr>pt_lat = 0, pt_lon = 0\<rparr>]"
  have rev: "rev pts = rpts"
    by (simp add: pts_def rpts_def)
  note P = binary64_PI_bounds
  have \<delta>: "0 < \<delta>" "round64 \<delta> = \<delta>" "round64 (4 * \<delta>) = 4 * \<delta>" "round64 (\<delta> / 32) = \<delta> / 32"
    "round64 (\<delta> / 16) = \<delta> / 16"
    using pow2_exact [of 50] pow2_exact [of 48] pow2_exact [of 55] pow2_exact [of 54]
    by (simp_all add: \<delta>_def)
  have r90: "round64 90 = 90"
    using round64_of_int [of 90] by simp
  define D where "D = toRadians_in binary64 90"
  define T where "T = round64 (D * 2)"
  have "270 \<le> 90 * PI binary64" "90 * PI binary64 \<le> 293"
    using P by simp_all
  then have "270 \<le> round64 (90 * PI binary64)" "round64 (90 * PI binary64) \<le> 293"
    using round64_between [of 270 293 "90 * PI binary64"] round64_of_int [of 270] round64_of_int [of 293]
    by simp_all
  then have "3 / 2 \<le> round64 (90 * PI binary64) / 180" "round64 (90 * PI binary64) / 180 \<le> 7 / 4"
    by simp_all
  then have D: "3 / 2 \<le> D" "D \<le> 7 / 4"
    using round64_between [of "3 / 2" "7 / 4" "round64 (90 * PI binary64) / 180"]
      round64_int_div_pow2 [of 3 1] round64_int_div_pow2 [of 7 2]
    by (simp_all add: D_def toRadians_in_def)
  then have "3 \<le> D * 2" "D * 2 \<le> 7 / 2"
    by simp_all
  then have T: "3 \<le> T" "T \<le> 7 / 2" "round64 T = T"
    using round64_between [of 3 "7 / 2" "D * 2"] round64_of_int [of 3] round64_int_div_pow2 [of 7 1]
    by (simp_all add: T_def)
  have Tm: "round64 (- D * 2) = - T"
    using round64_minus [of "D * 2"] by (simp add: T_def)
  define E where "E = toRadians_in binary64 \<delta>"
  define T2 where "T2 = round64 (E * 2)"
  have "0 < \<delta> * PI binary64" "\<delta> * PI binary64 \<le> 4 * \<delta>"
    using \<delta>(1) P by simp_all
  then have "0 < round64 (\<delta> * PI binary64)" "round64 (\<delta> * PI binary64) \<le> 4 * \<delta>"
    using round64_pos [of "\<delta> * PI binary64"] round64_mono [of "\<delta> * PI binary64" "4 * \<delta>"] \<delta>(3)
    by simp_all
  then have "0 < round64 (\<delta> * PI binary64) / 180" "round64 (\<delta> * PI binary64) / 180 \<le> \<delta> / 32"
    by simp_all
  then have E: "0 < E" "E \<le> \<delta> / 32"
    using round64_pos [of "round64 (\<delta> * PI binary64) / 180"]
      round64_mono [of "round64 (\<delta> * PI binary64) / 180" "\<delta> / 32"] \<delta>(4)
    by (simp_all add: E_def toRadians_in_def)
  then have "0 < E * 2" "E * 2 \<le> \<delta> / 16"
    by simp_all
  then have T2: "0 < T2" "T2 \<le> \<delta> / 16" "round64 T2 = T2"
    using round64_pos [of "E * 2"] round64_mono [of "E * 2" "\<delta> / 16"] \<delta>(5)
    by (simp_all add: T2_def)
  have T2m: "round64 (- E * 2) = - T2"
    using round64_minus [of "E * 2"] by (simp add: T2_def)
  have e1: "round64 (toRadians_in binary64 (round64 90) * 2) = T"
    by (simp add: r90 T_def D_def)
  have e2: "round64 (toRadians_in binary64 (round64 (- 90)) * 2) = - T"
    using Tm by (simp add: r90 round64_minus toRadians_in_binary64_minus D_def)
  have e3: "round64 (toRadians_in binary64 (round64 \<delta>) * 2) = T2"
    by (simp add: \<delta>(2) T2_def E_def)
  have e4: "round64 (toRadians_in binary64 (round64 (- \<delta>)) * 2) = - T2"
    using T2m by (simp add: \<delta>(2) round64_minus toRadians_in_binary64_minus E_def)
  have s1: "area_step binary64 pts 0 0 = T"
    by (subst area_step_equator) (simp_all add: pts_def e1 T(3))
  have s2: "area_step binary64 pts 1 T = 0"
    by (subst area_step_equator) (simp_all add: pts_def e2)
  have s3: "area_step binary64 pts 2 0 = T2"
    by (subst area_step_equator) (simp_all add: pts_def e3 T2(3))
  have s4: "area_step binary64 pts 3 T2 = 0"
    by (subst area_step_equator) (simp_all add: pts_def e4)
  have len: "length pts = 4" "length rpts = 4"
    by (simp_all add: pts_def rpts_def)
  have f: "fold (area_step binary64 pts) [0..<length pts] 0 = 0"
    unfolding len upt_4 by (simp only: fold_Cons fold_Nil o_apply id_apply s1 s2 s3 s4)
  have absorb: "round64 (T + - T2) = T"
  proof (rule round64_absorb [of T 1 "- T2"])
    show "round64 T = T"
      by (rule T(3))
    show "2 powr of_int 1 < \<bar>T\<bar>"
      using T(1) by simp
    show "\<bar>T\<bar> < 2 powr of_int (1 + 1)"
      using T(1,2) by simp
    show "\<bar>- T2\<bar> < 2 powr of_int (1 - 54)"
      using T2(1,2) by (simp add: \<delta>_def powr_minus)
  qed
  have T2n: "round64 (- T2) = - T2"
    using T2(3) by (simp only: round64_minus)
  have t1: "area_step binary64 rpts 0 0 = - T2"
    by (subst area_step_equator) (simp_all add: rpts_def e4 T2n)
  have t2: "area_step binary64 rpts 1 (- T2) = T"
    using absorb by (subst area_step_equator) (simp_all add: rpts_def e1 add.commute)
  have t3: "area_step binary64 rpts 2 T = 0"
    by (subst area_step_equator) (simp_all add: rpts_def e2)
  have t4: "area_step binary64 rpts 3 0 = T2"
    by (subst area_step_equator) (simp_all add: rpts_def e3 T2(3))
  have g: "fold (area_step binary64 rpts) [0..<length rpts] 0 = T2"
    unfolding len upt_4 by (simp only: fold_Cons fold_Nil o_apply id_apply t1 t2 t3 t4)
  have a: "calculateGeodesicArea binary64 pts = 0"
    using f by (simp add: calculateGeodesicArea_def Let_def len)
  have "0 < round64 (round64 (round64 (T2 * WGS84_a) * WGS84_a) / 2)"
    using T2(1) by (intro round64_pos divide_pos_pos mult_pos_pos) (simp_all add: WGS84_a_def)
  then have b: "0 < calculateGeodesicArea binary64 rpts"
    using g by (simp add: calculateGeodesicArea_def Let_def len)
  have c: "calculateGeodesicArea binary64 (rev pts) \<noteq> calculateGeodesicArea binary64 pts"
    using a b by (simp add: rev)
  show ?thesis
    using a b c unfolding rev [symmetric] pts_def \<delta>_def by simp
qed

text \<open>
  C7 (amended). For every list of points (so for every list of at least 3)
  \<open>calculateGeodesicArea\<close> is at least 0, for the list and for the list in reverse order,
  in exact and in double arithmetic. In exact real arithmetic the signed sum over the
  edges of the reversed list is the negation of the sum of the list, so the two areas are
  exactly the same; in double arithmetic they can differ by rounding.
\<close>

theorem calculateGeodesicArea_winding:
  "0 \<le> calculateGeodesicArea ar pts
   \<and> 0 \<le> calculateGeodesicArea ar (rev pts)
   \<and> calculateGeodesicArea exact (rev pts) = calculateGeodesicArea exact pts
   \<and> fold (area_step exact (rev pts)) [0..<length (rev pts)] 0
       = - fold (area_step exact pts) [0..<length pts] 0"
  using calculateGeodesicArea_nonneg [of ar pts] calculateGeodesicArea_nonneg [of ar "rev pts"]
    calculateGeodesicArea_exact_rev [of pts]
  by blast

end
